theory Spec2Isabelle
  imports Complex_Main "HOL-Library.Sublist" "HOL-Library.Multiset"
begin

section \<open>Python helpers used by the pipeline\<close>

text \<open>
  Strings are lists of characters; the model covers ASCII text. \<open>py_isspace\<close> is
  Python's \<open>str.isspace\<close> on one ASCII character (tab, line feed, vertical tab, form
  feed, carriage return, the four separators 0x1C..0x1F and the space).
\<close>

definition py_isspace :: "char \<Rightarrow> bool" where
  "py_isspace c =
     (let n = (of_char c :: nat) in (9 \<le> n \<and> n \<le> 13) \<or> (28 \<le> n \<and> n \<le> 32))"

text \<open>\<open>s.strip()\<close>: leading and trailing whitespace removed.\<close>

definition py_strip :: "string \<Rightarrow> string" where
  "py_strip s = rev (dropWhile py_isspace (rev (dropWhile py_isspace s)))"

text \<open>
  \<open>text[i:j]\<close> with integer bounds: a negative bound counts from the end, and both
  bounds are clamped to the length.
\<close>

definition py_slice :: "'a list \<Rightarrow> int \<Rightarrow> int \<Rightarrow> 'a list" where
  "py_slice xs i j =
     (let n = int (length xs);
          a = (if i < 0 then max (i + n) 0 else min i n);
          b = (if j < 0 then max (j + n) 0 else min j n)
      in if a < b then take (nat (b - a)) (drop (nat a) xs) else [])"

text \<open>
  \<open>s.split(sep)\<close> for a non-empty separator: a left-to-right scan for
  non-overlapping occurrences. \<open>cur\<close> is the piece collected so far. (Python raises
  ValueError for an empty separator; the pipeline only splits on its two literal
  markers, and the scan below then returns the whole string as one piece.)
\<close>

function py_split_aux :: "string \<Rightarrow> string \<Rightarrow> string \<Rightarrow> string list" where
  "py_split_aux sep cur s =
     (if s = [] then [cur]
      else if sep \<noteq> [] \<and> prefix sep s then cur # py_split_aux sep [] (drop (length sep) s)
      else py_split_aux sep (cur @ [hd s]) (tl s))"
  by pat_completeness auto
termination
  by (relation "measure (\<lambda>(sep, cur, s). length s)") auto

definition py_split :: "string \<Rightarrow> string \<Rightarrow> string list" where
  "py_split sep s = py_split_aux sep [] s"

section \<open>Chunker (backend/text_chunking.py)\<close>

text \<open>
  \<open>chunk_text\<close>: the \<open>while start < len(text)\<close> loop. With \<open>max_chars \<le> 0\<close>
  the loop never ends on a non-empty text, so the loop is a partial function and
  \<open>None\<close> stands for not returning.
\<close>

partial_function (option) chunk_text_loop ::
  "'a list \<Rightarrow> int \<Rightarrow> int \<Rightarrow> 'a list list \<Rightarrow> 'a list list option" where
  "chunk_text_loop text max_chars start chunks =
     (if start < int (length text)
      then chunk_text_loop text max_chars (start + max_chars)
             (chunks @ [py_slice text start (start + max_chars)])
      else Some chunks)"

definition chunk_text :: "'a list \<Rightarrow> int \<Rightarrow> 'a list list option" where
  "chunk_text text max_chars = chunk_text_loop text max_chars 0 []"

definition NEW_DOCUMENT :: string where
  "NEW_DOCUMENT = [CHR 0x0A, CHR 0x0A] @ ''=== NEW DOCUMENT ==='' @ [CHR 0x0A, CHR 0x0A]"

definition CHUNK_END :: string where
  "CHUNK_END = [CHR 0x0A] @ ''---CHUNK END---'' @ [CHR 0x0A]"

text \<open>The \<open>for doc in docs\<close> loop of \<open>chunk_all_texts\<close>, extending \<open>all_chunks\<close>.\<close>

fun chunk_docs :: "string list \<Rightarrow> int \<Rightarrow> string list \<Rightarrow> string list option" where
  "chunk_docs [] max_chars all_chunks = Some all_chunks"
| "chunk_docs (doc # docs) max_chars all_chunks =
     (case chunk_text doc max_chars of
        None \<Rightarrow> None
      | Some chunks \<Rightarrow> chunk_docs docs max_chars (all_chunks @ chunks))"

definition all_chunks_of :: "string \<Rightarrow> int \<Rightarrow> string list option" where
  "all_chunks_of full_text max_chars = chunk_docs (py_split NEW_DOCUMENT full_text) max_chars []"

text \<open>
  \<open>chunk_all_texts\<close>: the contents written to the output file, every chunk stripped
  and followed by the end-of-chunk marker.
\<close>

definition chunk_all_texts :: "string \<Rightarrow> int \<Rightarrow> string option" where
  "chunk_all_texts full_text max_chars =
     (case all_chunks_of full_text max_chars of
        None \<Rightarrow> None
      | Some all_chunks \<Rightarrow> Some (concat (map (\<lambda>chunk. py_strip chunk @ CHUNK_END) all_chunks)))"

section \<open>Cluster selector and clusterer (backend/clustering.py)\<close>

text \<open>
  A chunk record of \<open>embeddings.json\<close>: the keys \<open>id\<close> and \<open>text\<close>, and the keys
  \<open>embedding\<close> and \<open>cluster\<close>, which may be absent (\<open>None\<close>).
\<close>

record item =
  item_id :: int
  item_text :: string
  embedding :: "real list option"
  cluster :: "int option"

text \<open>
  The exceptions of the pipeline: the ValueError \<open>perform_clustering\<close> raises itself,
  the ValueError \<open>np.array\<close> raises on rows of unequal length, KeyError and IndexError
  of a dict or list access, and \<open>LibraryError\<close> for a ValueError raised inside a
  scikit-learn call.
\<close>

datatype error = NoEmbeddingsFound | InhomogeneousShape | KeyError | IndexError | LibraryError

definition is_ValueError :: "error \<Rightarrow> bool" where
  "is_ValueError e = (e = NoEmbeddingsFound \<or> e = InhomogeneousShape \<or> e = LibraryError)"

text \<open>What the clusterer prints when it lowers the cluster count.\<close>

datatype log_line = Not_enough_data_points int int | Reducing_to int

text \<open>\<open>list(range(lo, hi, step))\<close> for a positive step.\<close>

definition py_range :: "int \<Rightarrow> int \<Rightarrow> int \<Rightarrow> int list" where
  "py_range lo hi step =
     map (\<lambda>i. lo + int i * step) [0..<nat ((hi - lo + step - 1) div step)]"

text \<open>The two bounds \<open>determine_optimal_clusters\<close> computes from \<open>doc_size = X.shape[0]\<close>.\<close>

definition min_k :: "int \<Rightarrow> int \<Rightarrow> int" where
  "min_k doc_size min_clusters = min min_clusters (max 2 (doc_size div 20))"

definition max_k :: "int \<Rightarrow> int \<Rightarrow> int \<Rightarrow> int" where
  "max_k doc_size min_clusters max_clusters =
     min max_clusters (max (min_k doc_size min_clusters + 2) (doc_size div 5))"

definition cluster_range :: "int \<Rightarrow> int \<Rightarrow> int \<Rightarrow> int list" where
  "cluster_range doc_size min_clusters max_clusters =
     (let lo = min_k doc_size min_clusters;
          hi = max_k doc_size min_clusters max_clusters
      in if hi > 30 then py_range lo hi (max 1 ((hi - lo) div 10))
         else py_range lo hi 1)"

text \<open>
  The scoring loop. \<open>score k\<close> stands for fitting KMeans with \<open>k\<close> clusters on the
  scaled data and taking the silhouette score; \<open>None\<close> is an exception raised there,
  which the loop's \<open>except\<close> swallows. Candidates with \<open>doc_size \<le> k\<close> are skipped.
\<close>

fun silhouette_scores :: "(int \<Rightarrow> 's option) \<Rightarrow> int \<Rightarrow> int list \<Rightarrow> (int \<times> 's) list" where
  "silhouette_scores score doc_size [] = []"
| "silhouette_scores score doc_size (k # ks) =
     (if doc_size \<le> k then silhouette_scores score doc_size ks
      else case score k of
             None \<Rightarrow> silhouette_scores score doc_size ks
           | Some s \<Rightarrow> (k, s) # silhouette_scores score doc_size ks)"

text \<open>\<open>max(xs, key=lambda x: x[1])\<close> on a non-empty list: the first maximal element.\<close>

fun max_by_score :: "(int \<times> 's::linorder) \<Rightarrow> (int \<times> 's) list \<Rightarrow> (int \<times> 's)" where
  "max_by_score best [] = best"
| "max_by_score best (x # xs) = max_by_score (if snd best < snd x then x else best) xs"

definition determine_optimal_clusters ::
  "(int \<Rightarrow> ('s::linorder) option) \<Rightarrow> int \<Rightarrow> int \<Rightarrow> int \<Rightarrow> int" where
  "determine_optimal_clusters score doc_size min_clusters max_clusters =
     (let lo = min_k doc_size min_clusters;
          rng = cluster_range doc_size min_clusters max_clusters
      in if length rng < 2 then lo
         else case silhouette_scores score doc_size rng of
                [] \<Rightarrow> lo
              | x # xs \<Rightarrow> fst (max_by_score x xs))"

text \<open>The embeddings that exist and are non-empty, in record order.\<close>

fun vectors_of :: "item list \<Rightarrow> real list list" where
  "vectors_of [] = []"
| "vectors_of (it # its) =
     (case embedding it of
        Some (v # vs) \<Rightarrow> (v # vs) # vectors_of its
      | _ \<Rightarrow> vectors_of its)"

text \<open>
  The cluster count asked for: \<open>num_clusters\<close>, or the selector's choice (defaults 3 and
  50) when it is \<open>None\<close> or not positive.
\<close>

definition requested_clusters ::
  "(real list list \<Rightarrow> int \<Rightarrow> ('s::linorder) option) \<Rightarrow> real list list \<Rightarrow> int option \<Rightarrow> int" where
  "requested_clusters score X num_clusters =
     (case num_clusters of
        None \<Rightarrow> determine_optimal_clusters (score X) (int (length X)) 3 50
      | Some k \<Rightarrow> if k \<le> 0 then determine_optimal_clusters (score X) (int (length X)) 3 50
                  else k)"

text \<open>
  \<open>X = np.array(vectors)\<close>: a list of number lists becomes a 2-dimensional array when
  all rows have the same length, and is refused with a ValueError otherwise. The rows
  being non-empty lists of numbers, the array never has one dimension, so the
  \<open>X.ndim == 1\<close> reshape of the source does not apply.
\<close>

definition rectangular :: "real list list \<Rightarrow> bool" where
  "rectangular vectors = list_all (\<lambda>row. length row = length (hd vectors)) vectors"

definition np_array :: "real list list \<Rightarrow> error + real list list" where
  "np_array vectors = (if rectangular vectors then Inr vectors else Inl InhomogeneousShape)"

text \<open>
  \<open>perform_clustering\<close> up to its KMeans call: either a ValueError (no embedding, or
  rows of unequal length), or what was printed together with the \<open>n_clusters\<close> and the
  array handed to KMeans.
\<close>

definition clustering_request ::
  "(real list list \<Rightarrow> int \<Rightarrow> ('s::linorder) option) \<Rightarrow> item list \<Rightarrow> int option
     \<Rightarrow> error + (log_line list \<times> int \<times> real list list)" where
  "clustering_request score embeddings_data num_clusters =
     (let vectors = vectors_of embeddings_data in
      if vectors = [] then Inl NoEmbeddingsFound
      else case np_array vectors of
             Inl e \<Rightarrow> Inl e
           | Inr X \<Rightarrow>
               (let n = int (length X);
                    k = requested_clusters score X num_clusters
                in if n < k
                   then Inr ([Not_enough_data_points n k, Reducing_to (max 2 (n div 3))],
                             max 2 (n div 3), X)
                   else Inr ([], k, X)))"

text \<open>
  \<open>perform_clustering\<close>: \<open>kmeans k X\<close> stands for
  \<open>KMeans(n_clusters=k, random_state=42).fit_predict(X)\<close>, a library call that returns
  one label per row or raises.
\<close>

definition perform_clustering ::
  "(int \<Rightarrow> real list list \<Rightarrow> error + int list)
     \<Rightarrow> (real list list \<Rightarrow> int \<Rightarrow> ('s::linorder) option) \<Rightarrow> item list \<Rightarrow> int option
     \<Rightarrow> log_line list \<times> (error + int list)" where
  "perform_clustering kmeans score embeddings_data num_clusters =
     (case clustering_request score embeddings_data num_clusters of
        Inl e \<Rightarrow> ([], Inl e)
      | Inr (logs, k, X) \<Rightarrow> (logs, kmeans k X))"

text \<open>
  A stand-in partition algorithm for concrete runs: it follows the library's contract
  (it refuses \<open>k < 1\<close> and more clusters than rows) and puts every row in cluster 0.
\<close>

definition one_cluster_kmeans :: "int \<Rightarrow> real list list \<Rightarrow> error + int list" where
  "one_cluster_kmeans k X =
     (if 1 \<le> k \<and> k \<le> int (length X) then Inr (replicate (length X) 0) else Inl LibraryError)"

text \<open>A stand-in scorer for concrete runs: every candidate scores the same.\<close>

definition flat_score :: "real list list \<Rightarrow> int \<Rightarrow> int option" where
  "flat_score X k = Some 0"

text \<open>
  \<open>save_clustered_data\<close>: \<open>for i, cluster in enumerate(clusters):
  embeddings_data[i]["cluster"] = int(cluster)\<close>, an IndexError when the labels outnumber
  the records. The result is the list dumped to \<open>clustered_embeddings.json\<close>.
\<close>

fun save_loop :: "item list \<Rightarrow> nat \<Rightarrow> int list \<Rightarrow> error + item list" where
  "save_loop embeddings_data i [] = Inr embeddings_data"
| "save_loop embeddings_data i (c # cs) =
     (if i < length embeddings_data
      then save_loop (embeddings_data[i := (embeddings_data ! i)\<lparr>cluster := Some c\<rparr>]) (Suc i) cs
      else Inl IndexError)"

definition save_clustered_data :: "item list \<Rightarrow> int list \<Rightarrow> error + item list" where
  "save_clustered_data embeddings_data clusters = save_loop embeddings_data 0 clusters"

text \<open>
  The filter of \<open>perform_clustering\<close>'s list comprehension, and the positions of the
  records that pass it: label \<open>j\<close> of the clusterer was computed from the vector of the
  record at position \<open>embedded_positions data ! j\<close>.
\<close>

definition has_embedding :: "item \<Rightarrow> bool" where
  "has_embedding it = (case embedding it of Some (v # vs) \<Rightarrow> True | _ \<Rightarrow> False)"

fun positions_from :: "nat \<Rightarrow> item list \<Rightarrow> nat list" where
  "positions_from i [] = []"
| "positions_from i (it # its) =
     (if has_embedding it then i # positions_from (Suc i) its else positions_from (Suc i) its)"

definition embedded_positions :: "item list \<Rightarrow> nat list" where
  "embedded_positions embeddings_data = positions_from 0 embeddings_data"

section \<open>Aggregator (backend/generate_json.py)\<close>

text \<open>\<open>str(n)\<close> for an integer: its decimal digits, with a minus sign when negative.\<close>

fun str_nat :: "nat \<Rightarrow> string" where
  "str_nat n =
     (if n < 10 then [''0123456789'' ! n]
      else str_nat (n div 10) @ [''0123456789'' ! (n mod 10)])"

declare str_nat.simps [simp del]

definition str_int :: "int \<Rightarrow> string" where
  "str_int i = (if i < 0 then ''-'' @ str_nat (nat (- i)) else str_nat (nat i))"

record cluster_entry =
  entry_id :: int
  entry_name :: string
  entry_items :: "item list"

record artifact =
  art_title :: string
  art_description :: string
  art_similarity :: real
  art_charsPerPixel :: int
  art_clusters :: "cluster_entry list"

datatype warning = Clustered_data_is_empty

text \<open>
  \<open>clusters_dict\<close> is a Python dict, which keeps insertion order: an association list
  with one entry per key. \<open>dict_append d cid it\<close> is
  \<open>if cid not in d: d[cid] = []\<close> followed by \<open>d[cid].append(it)\<close>.
\<close>

fun dict_append :: "(int \<times> 'a list) list \<Rightarrow> int \<Rightarrow> 'a \<Rightarrow> (int \<times> 'a list) list" where
  "dict_append [] cid it = [(cid, [it])]"
| "dict_append ((k, v) # d) cid it =
     (if k = cid then (k, v @ [it]) # d else (k, v) # dict_append d cid it)"

text \<open>The grouping loop; \<open>item["cluster"]\<close> raises KeyError when the key is absent.\<close>

fun organize :: "item list \<Rightarrow> (int \<times> item list) list \<Rightarrow> error + (int \<times> item list) list" where
  "organize [] clusters_dict = Inr clusters_dict"
| "organize (it # its) clusters_dict =
     (case cluster it of
        None \<Rightarrow> Inl KeyError
      | Some cid \<Rightarrow> organize its (dict_append clusters_dict cid it))"

text \<open>
  \<open>generate_docexplore_json\<close>: what it prints about an empty input, and either the
  exception or the artifact written to \<open>docexplore.json\<close>. \<open>cluster_names\<close> is the
  name dict, keyed by \<open>str(cid)\<close>.
\<close>

definition generate_docexplore_json ::
  "string \<Rightarrow> string \<Rightarrow> item list \<Rightarrow> (string \<rightharpoonup> string) \<Rightarrow> real \<Rightarrow> int
     \<Rightarrow> warning list \<times> (error + artifact)" where
  "generate_docexplore_json title description clustered_data cluster_names
       similarity_threshold charsPerPixel =
     (let warnings = (if clustered_data = [] then [Clustered_data_is_empty] else [])
      in case organize clustered_data [] of
           Inl e \<Rightarrow> (warnings, Inl e)
         | Inr clusters_dict \<Rightarrow>
             (warnings,
              Inr \<lparr>art_title = title, art_description = description,
                   art_similarity = similarity_threshold, art_charsPerPixel = charsPerPixel,
                   art_clusters =
                     map (\<lambda>(cid, its).
                            \<lparr>entry_id = cid,
                             entry_name = (case cluster_names (str_int cid) of
                                             Some n \<Rightarrow> n
                                           | None \<Rightarrow> ''Cluster '' @ str_int cid),
                             entry_items = its\<rparr>)
                         clusters_dict\<rparr>))"

text \<open>
  The main block of \<open>clustering.py\<close>: \<open>perform_clustering(embeddings_data)\<close> with no
  cluster count; a ValueError is caught and the labels are then the empty list, any
  other exception ends the script; \<open>save_clustered_data\<close> writes the records.
\<close>

definition clustering_main ::
  "(int \<Rightarrow> real list list \<Rightarrow> error + int list)
     \<Rightarrow> (real list list \<Rightarrow> int \<Rightarrow> ('s::linorder) option) \<Rightarrow> item list \<Rightarrow> error + item list" where
  "clustering_main kmeans score embeddings_data =
     (case snd (perform_clustering kmeans score embeddings_data None) of
        Inr clusters \<Rightarrow> save_clustered_data embeddings_data clusters
      | Inl e \<Rightarrow> if is_ValueError e then save_clustered_data embeddings_data [] else Inl e)"

text \<open>
  Clustering followed by assembly, as the driver runs them: the assembly reads the
  records the clustering script wrote. \<open>cluster_names\<close> is the name file written in
  between by the naming script, which does not change the records.
\<close>

definition cluster_and_assemble ::
  "(int \<Rightarrow> real list list \<Rightarrow> error + int list)
     \<Rightarrow> (real list list \<Rightarrow> int \<Rightarrow> ('s::linorder) option)
     \<Rightarrow> string \<Rightarrow> string \<Rightarrow> (string \<rightharpoonup> string) \<Rightarrow> real \<Rightarrow> int \<Rightarrow> item list
     \<Rightarrow> error + artifact" where
  "cluster_and_assemble kmeans score title description cluster_names similarity_threshold
       charsPerPixel embeddings_data =
     (case clustering_main kmeans score embeddings_data of
        Inl e \<Rightarrow> Inl e
      | Inr clustered_data \<Rightarrow>
          snd (generate_docexplore_json title description clustered_data cluster_names
                 similarity_threshold charsPerPixel))"

text \<open>
  The grouping invariant of \<open>clusters_dict\<close>: every item stored under a key carries
  that key as its \<open>cluster\<close> field.
\<close>

definition grouped_by_key :: "(int \<times> item list) list \<Rightarrow> bool" where
  "grouped_by_key d = (\<forall>kv\<in>set d. \<forall>x\<in>set (snd kv). cluster x = Some (fst kv))"

section \<open>More string helpers\<close>

text \<open>\<open>s.split()\<close>: the maximal runs of non-whitespace characters.\<close>

fun split_ws_aux :: "string \<Rightarrow> string \<Rightarrow> string list" where
  "split_ws_aux cur [] = (if cur = [] then [] else [cur])"
| "split_ws_aux cur (c # cs) =
     (if py_isspace c then (if cur = [] then split_ws_aux [] cs else cur # split_ws_aux [] cs)
      else split_ws_aux (cur @ [c]) cs)"

definition py_split_ws :: "string \<Rightarrow> string list" where
  "py_split_ws s = split_ws_aux [] s"

text \<open>\<open>sep.join(xs)\<close>.\<close>

fun py_join :: "string \<Rightarrow> string list \<Rightarrow> string" where
  "py_join sep [] = []"
| "py_join sep [x] = x"
| "py_join sep (x # y # ys) = x @ sep @ py_join sep (y # ys)"

text \<open>Case mapping and \<open>isalpha\<close> on ASCII letters; other characters are left alone.\<close>

definition py_lower_char :: "char \<Rightarrow> char" where
  "py_lower_char c =
     (case map_of (zip ''ABCDEFGHIJKLMNOPQRSTUVWXYZ'' ''abcdefghijklmnopqrstuvwxyz'') c of
        Some l \<Rightarrow> l
      | None \<Rightarrow> c)"

definition py_upper_char :: "char \<Rightarrow> char" where
  "py_upper_char c =
     (case map_of (zip ''abcdefghijklmnopqrstuvwxyz'' ''ABCDEFGHIJKLMNOPQRSTUVWXYZ'') c of
        Some u \<Rightarrow> u
      | None \<Rightarrow> c)"

definition py_lower :: "string \<Rightarrow> string" where
  "py_lower s = map py_lower_char s"

definition py_capitalize :: "string \<Rightarrow> string" where
  "py_capitalize s = (case s of [] \<Rightarrow> [] | c # cs \<Rightarrow> py_upper_char c # map py_lower_char cs)"

definition py_isalpha_char :: "char \<Rightarrow> bool" where
  "py_isalpha_char c =
     (c \<in> set ''abcdefghijklmnopqrstuvwxyz'' \<or> c \<in> set ''ABCDEFGHIJKLMNOPQRSTUVWXYZ'')"

definition py_isalpha :: "string \<Rightarrow> bool" where
  "py_isalpha s = (s \<noteq> [] \<and> list_all py_isalpha_char s)"

section \<open>Topic namer (backend/topic_naming.py)\<close>

text \<open>
  \<open>MAX_KEYWORDS\<close> comes from the \<open>config\<close> module and is a parameter here.
  \<open>vectorize text_samples\<close> stands for the CountVectorizer steps (fit, feature names,
  summed counts, descending argsort): the features in ranking order, or the exception
  the library raised.

  \<open>selected_phrases\<close>: the top \<open>2 * MAX_KEYWORDS\<close> features, multi-word phrases first,
  topped up with single words.
\<close>

definition selected_phrases :: "int \<Rightarrow> string list \<Rightarrow> string list" where
  "selected_phrases MAX_KEYWORDS ranked =
     (let top_phrases = py_slice ranked 0 (MAX_KEYWORDS * 2);
          multi_word_phrases = filter (\<lambda>p. length (py_split_ws p) > 1) top_phrases;
          single_words = filter (\<lambda>p. length (py_split_ws p) = 1) top_phrases;
          selected = (if multi_word_phrases \<noteq> []
                      then py_slice multi_word_phrases 0
                             (min MAX_KEYWORDS (int (length multi_word_phrases)))
                      else [])
      in if int (length selected) < MAX_KEYWORDS
         then selected @ py_slice single_words 0 (MAX_KEYWORDS - int (length selected))
         else selected)"

text \<open>The body of the \<open>try\<close> block; \<open>Inl\<close> is an exception raised inside it.\<close>

definition name_cluster_body ::
  "int \<Rightarrow> (string list \<Rightarrow> error + string list) \<Rightarrow> string list \<Rightarrow> int \<Rightarrow> error + string" where
  "name_cluster_body MAX_KEYWORDS vectorize text_samples cluster_id =
     (if length text_samples = 0 then Inr (''Topic '' @ str_int cluster_id)
      else case vectorize text_samples of
             Inl e \<Rightarrow> Inl e
           | Inr ranked \<Rightarrow>
               (let selected = selected_phrases MAX_KEYWORDS ranked in
                if selected = [] then Inr (''Topic '' @ str_int cluster_id)
                else let formatted_phrases =
                           map py_capitalize (py_slice selected 0 MAX_KEYWORDS)
                     in case formatted_phrases of
                          [] \<Rightarrow> Inl IndexError
                        | [p] \<Rightarrow> Inr (if p \<noteq> [] then p else ''Cluster '' @ str_int cluster_id)
                        | p # ps \<Rightarrow> Inr (p @ '' & '' @ py_join '' '' ps)))"

text \<open>\<open>name_cluster\<close>: the \<open>except Exception\<close> handler turns any exception into a label.\<close>

definition name_cluster ::
  "int \<Rightarrow> (string list \<Rightarrow> error + string list) \<Rightarrow> string list \<Rightarrow> int \<Rightarrow> string" where
  "name_cluster MAX_KEYWORDS vectorize text_samples cluster_id =
     (case name_cluster_body MAX_KEYWORDS vectorize text_samples cluster_id of
        Inr title \<Rightarrow> title
      | Inl e \<Rightarrow> ''Cluster '' @ str_int cluster_id)"

text \<open>
  Stand-ins for the vectorizer in concrete runs: one that raises, as CountVectorizer
  does on an empty vocabulary, and one that finds no feature.
\<close>

definition raising_vectorizer :: "string list \<Rightarrow> error + string list" where
  "raising_vectorizer text_samples = Inl LibraryError"

definition featureless_vectorizer :: "string list \<Rightarrow> error + string list" where
  "featureless_vectorizer text_samples = Inr []"

section \<open>Topic overlap (app.py)\<close>

text \<open>The distinct words of a text that are longer than 3 characters and alphabetic.\<close>

definition significant_words :: "string \<Rightarrow> string set" where
  "significant_words all_text =
     set (filter (\<lambda>word. length word > 3 \<and> py_isalpha word) (py_split_ws all_text))"

text \<open>
  \<open>topics\<close> is \<open>list(topics_dict.items())\<close>: pairs of cluster id and topic name, in
  dict order. \<open>topic_texts\<close> is the first loop: the lower-cased text of every record
  whose cluster id is a key of \<open>topics_dict\<close>, grouped by that id.
\<close>

fun topic_texts ::
  "item list \<Rightarrow> (int \<times> string) list \<Rightarrow> (int \<times> string list) list \<Rightarrow> (int \<times> string list) list" where
  "topic_texts [] topics acc = acc"
| "topic_texts (it # its) topics acc =
     (case cluster it of
        None \<Rightarrow> topic_texts its topics acc
      | Some cid \<Rightarrow>
          if cid \<in> fst ` set topics
          then topic_texts its topics (dict_append acc cid (py_lower (item_text it)))
          else topic_texts its topics acc)"

text \<open>\<open>topic_words.get(cid, set())\<close>, where \<open>topic_words[cid]\<close> is built from the joined texts.\<close>

definition topic_words :: "(int \<times> string list) list \<Rightarrow> int \<Rightarrow> string set" where
  "topic_words texts_by_topic cid =
     (case map_of texts_by_topic cid of
        None \<Rightarrow> {}
      | Some texts \<Rightarrow> significant_words (py_join '' '' texts))"

text \<open>
  The overlap of two word sets. Python divides two integers into a float; the model
  keeps the exact ratio.
\<close>

definition overlap_score :: "string set \<Rightarrow> string set \<Rightarrow> rat" where
  "overlap_score words_i words_j =
     (let common = card (words_i \<inter> words_j);
          total = card (words_i \<union> words_j)
      in if total > 0 then of_nat common / of_nat total else 0)"

text \<open>
  The inner loop (\<open>j\<close> from \<open>i + 1\<close>) and the outer loop. \<open>round2\<close> stands for Python's
  \<open>round(overlap, 2)\<close>, a floating-point operation.
\<close>

fun overlaps_with ::
  "(rat \<Rightarrow> 'r) \<Rightarrow> (int \<Rightarrow> string set) \<Rightarrow> int \<times> string \<Rightarrow> (int \<times> string) list
     \<Rightarrow> (string \<times> string \<times> 'r) list" where
  "overlaps_with round2 words ti [] = []"
| "overlaps_with round2 words ti (tj # rest) =
     (let overlap = overlap_score (words (fst ti)) (words (fst tj))
      in if overlap > 1 / 10
         then (snd ti, snd tj, round2 overlap) # overlaps_with round2 words ti rest
         else overlaps_with round2 words ti rest)"

fun all_overlaps ::
  "(rat \<Rightarrow> 'r) \<Rightarrow> (int \<Rightarrow> string set) \<Rightarrow> (int \<times> string) list \<Rightarrow> (string \<times> string \<times> 'r) list" where
  "all_overlaps round2 words [] = []"
| "all_overlaps round2 words (ti # rest) =
     overlaps_with round2 words ti rest @ all_overlaps round2 words rest"

definition compute_topic_overlap ::
  "(rat \<Rightarrow> 'r) \<Rightarrow> item list \<Rightarrow> (int \<times> string) list \<Rightarrow> (string \<times> string \<times> 'r) list" where
  "compute_topic_overlap round2 clustered_data topics =
     all_overlaps round2 (topic_words (topic_texts clustered_data topics [])) topics"

text \<open>A stand-in for \<open>round(x, 2)\<close> on exact ratios, for concrete runs.\<close>

definition round2_exact :: "rat \<Rightarrow> rat" where
  "round2_exact x = of_int (round (x * 100)) / 100"

text \<open>
  The lower-cased texts of the records of one cluster, in record order (what the
  grouping loop collects under that cluster id).
\<close>

definition texts_of :: "item list \<Rightarrow> int \<Rightarrow> string list" where
  "texts_of clustered_data cid =
     map (\<lambda>it. py_lower (item_text it)) (filter (\<lambda>it. cluster it = Some cid) clustered_data)"

text \<open>\<open>d.get(cid, [])\<close> on the grouping dict.\<close>

definition lookup_texts :: "(int \<times> string list) list \<Rightarrow> int \<Rightarrow> string list" where
  "lookup_texts d cid = (case map_of d cid of None \<Rightarrow> [] | Some v \<Rightarrow> v)"

section \<open>Chunker: proofs\<close>

lemma div_minus_one:
  assumes "(0::int) < m" "- m \<le> a" "a < 0"
  shows "a div m = - 1"
proof -
  have "a = m * (- 1) + (a + m)" by simp
  moreover have "0 \<le> a + m" "a + m < m" using assms by simp_all
  ultimately show ?thesis by (rule int_div_pos_eq)
qed

lemma py_slice_window:
  assumes "0 \<le> s" "0 < m"
  shows "py_slice xs s (s + m) = take (nat m) (drop (nat s) xs)"
proof (cases "s < int (length xs)")
  case True
  show ?thesis
  proof (cases "s + m \<le> int (length xs)")
    case True
    then have "py_slice xs s (s + m) = take (nat (s + m - s)) (drop (nat s) xs)"
      using assms \<open>s < int (length xs)\<close> by (simp add: py_slice_def Let_def)
    then show ?thesis by simp
  next
    case False
    then have "py_slice xs s (s + m) = take (nat (int (length xs) - s)) (drop (nat s) xs)"
      using assms \<open>s < int (length xs)\<close> by (simp add: py_slice_def Let_def)
    moreover have "length (drop (nat s) xs) \<le> nat (int (length xs) - s)"
      using assms by simp
    moreover have "length (drop (nat s) xs) \<le> nat m"
      using assms False by simp
    ultimately show ?thesis by simp
  qed
next
  case False
  then show ?thesis using assms
    by (auto simp: py_slice_def Let_def min_def)
qed

lemma chunk_text_loop_spec:
  assumes "0 < m" "0 \<le> s"
  shows "\<exists>cs. chunk_text_loop xs m s acc = Some (acc @ cs)
           \<and> concat cs = drop (nat s) xs
           \<and> (\<forall>c\<in>set cs. int (length c) \<le> m)
           \<and> int (length cs) = - ((s - int (length xs)) div m)
           \<or> (int (length xs) \<le> s \<and> chunk_text_loop xs m s acc = Some acc)"
  using assms
proof (induction "nat (int (length xs) - s)" arbitrary: s acc rule: less_induct)
  case less
  show ?case
  proof (cases "s < int (length xs)")
    case False
    then show ?thesis by (subst chunk_text_loop.simps) simp
  next
    case True
    let ?c = "py_slice xs s (s + m)"
    have c: "?c = take (nat m) (drop (nat s) xs)"
      using less.prems by (simp add: py_slice_window)
    have step: "chunk_text_loop xs m s acc = chunk_text_loop xs m (s + m) (acc @ [?c])"
      using True by (subst chunk_text_loop.simps) simp
    have dec: "nat (int (length xs) - (s + m)) < nat (int (length xs) - s)"
      using True less.prems by linarith
    have nn: "0 \<le> s + m" using less.prems by simp
    from less.hyps[OF dec \<open>0 < m\<close> nn, of "acc @ [?c]"]
    consider (a) cs where "chunk_text_loop xs m (s + m) (acc @ [?c]) = Some ((acc @ [?c]) @ cs)"
        "concat cs = drop (nat (s + m)) xs" "\<forall>c\<in>set cs. int (length c) \<le> m"
        "int (length cs) = - ((s + m - int (length xs)) div m)"
      | (b) "int (length xs) \<le> s + m" "chunk_text_loop xs m (s + m) (acc @ [?c]) = Some (acc @ [?c])"
      by blast
    then show ?thesis
    proof cases
      case a
      have dr: "drop (nat (s + m)) xs = drop (nat m) (drop (nat s) xs)"
        using less.prems by (simp add: nat_add_distrib add.commute)
      have "concat (?c # cs) = ?c @ concat cs" by simp
      also have "\<dots> = take (nat m) (drop (nat s) xs) @ drop (nat m) (drop (nat s) xs)"
        by (simp only: c a(2) dr)
      also have "\<dots> = drop (nat s) xs" by (rule append_take_drop_id)
      finally have "concat (?c # cs) = drop (nat s) xs" .
      moreover have "\<forall>c\<in>set (?c # cs). int (length c) \<le> m"
        using a(3) less.prems by (auto simp: c)
      moreover have "int (length (?c # cs)) = - ((s - int (length xs)) div m)"
      proof -
        have "(s + m - int (length xs)) div m = ((s - int (length xs)) + m) div m"
          by (simp add: algebra_simps)
        also have "\<dots> = (s - int (length xs)) div m + 1"
          using less.prems(1) by simp
        finally have "(s + m - int (length xs)) div m = (s - int (length xs)) div m + 1" .
        then show ?thesis using a(4) by simp
      qed
      moreover have "chunk_text_loop xs m s acc = Some (acc @ (?c # cs))"
        using step a(1) by simp
      ultimately show ?thesis by blast
    next
      case b
      have "concat [?c] = drop (nat s) xs"
        using b(1) True less.prems by (simp add: c)
      moreover have "\<forall>c\<in>set [?c]. int (length c) \<le> m"
        using less.prems by (auto simp: c)
      moreover have "int (length [?c]) = - ((s - int (length xs)) div m)"
      proof -
        have "- m \<le> s - int (length xs)" "s - int (length xs) < 0"
          using b(1) True by simp_all
        then have "(s - int (length xs)) div m = - 1"
          using less.prems(1) by (simp add: div_minus_one)
        then show ?thesis by simp
      qed
      moreover have "chunk_text_loop xs m s acc = Some (acc @ [?c])"
        using step b(2) by simp
      ultimately show ?thesis by blast
    qed
  qed
qed

lemma chunk_text_spec:
  assumes "0 < m"
  shows "\<exists>cs. chunk_text xs m = Some cs \<and> concat cs = xs
           \<and> (\<forall>c\<in>set cs. int (length c) \<le> m)
           \<and> int (length cs) = - ((- int (length xs)) div m)"
proof -
  from chunk_text_loop_spec[OF assms, of 0 xs "[]"]
  consider (a) cs where "chunk_text_loop xs m 0 [] = Some ([] @ cs)" "concat cs = drop (nat 0) xs"
      "\<forall>c\<in>set cs. int (length c) \<le> m" "int (length cs) = - ((0 - int (length xs)) div m)"
    | (b) "int (length xs) \<le> 0" "chunk_text_loop xs m 0 [] = Some []"
    by auto
  then show ?thesis
  proof cases
    case a
    then show ?thesis by (auto simp: chunk_text_def)
  next
    case b
    then show ?thesis by (auto simp: chunk_text_def)
  qed
qed

lemma chunk_docs_spec:
  assumes "0 < m"
  shows "\<exists>css. chunk_docs docs m acc = Some (acc @ concat css)
           \<and> list_all2 (\<lambda>doc cs. chunk_text doc m = Some cs) docs css"
proof (induction docs arbitrary: acc)
  case Nil
  show ?case by simp
next
  case (Cons d ds)
  from chunk_text_spec[OF assms, of d] obtain cs where cs: "chunk_text d m = Some cs" by blast
  from Cons[of "acc @ cs"] obtain css where
    "chunk_docs ds m (acc @ cs) = Some ((acc @ cs) @ concat css)"
    "list_all2 (\<lambda>doc cs. chunk_text doc m = Some cs) ds css" by blast
  then have "chunk_docs (d # ds) m acc = Some (acc @ concat (cs # css))
     \<and> list_all2 (\<lambda>doc cs. chunk_text doc m = Some cs) (d # ds) (cs # css)"
    using cs by simp
  then show ?case by blast
qed

text \<open>
  Claim C1 (as amended). For every text and every \<open>max_chars > 0\<close>, \<open>chunk_text\<close>
  returns, and returns exactly \<open>ceil(len(text) / max_chars)\<close> chunks, each of at most
  \<open>max_chars\<close> characters, whose concatenation in order is the text. \<open>chunk_all_texts\<close>
  chunks every document segment this way and writes each chunk with its leading and
  trailing whitespace stripped, followed by the end-of-chunk marker.
\<close>

theorem chunker_chunks_reconstruct:
  assumes "0 < max_chars"
  shows "(\<exists>chunks. chunk_text doc_text max_chars = Some chunks
            \<and> int (length chunks) = \<lceil>rat_of_int (int (length doc_text)) / rat_of_int max_chars\<rceil>
            \<and> (\<forall>c\<in>set chunks. int (length c) \<le> max_chars)
            \<and> concat chunks = doc_text)
       \<and> (\<exists>css. list_all2 (\<lambda>doc cs. chunk_text doc max_chars = Some cs)
                    (py_split NEW_DOCUMENT full_text) css
            \<and> all_chunks_of full_text max_chars = Some (concat css)
            \<and> chunk_all_texts full_text max_chars =
                Some (concat (map (\<lambda>chunk. py_strip chunk @ CHUNK_END) (concat css))))"
proof -
  from chunk_text_spec[OF assms, of doc_text] obtain cs where
    cs: "chunk_text doc_text max_chars = Some cs" "concat cs = doc_text"
      "\<forall>c\<in>set cs. int (length c) \<le> max_chars"
      "int (length cs) = - ((- int (length doc_text)) div max_chars)" by blast
  have "int (length cs) = \<lceil>rat_of_int (int (length doc_text)) / rat_of_int max_chars\<rceil>"
    using cs(4) by (simp only: ceiling_divide_eq_div)
  then have A: "\<exists>chunks. chunk_text doc_text max_chars = Some chunks
            \<and> int (length chunks) = \<lceil>rat_of_int (int (length doc_text)) / rat_of_int max_chars\<rceil>
            \<and> (\<forall>c\<in>set chunks. int (length c) \<le> max_chars)
            \<and> concat chunks = doc_text"
    using cs by blast
  from chunk_docs_spec[OF assms, of "py_split NEW_DOCUMENT full_text" "[]"] obtain css where
    css: "chunk_docs (py_split NEW_DOCUMENT full_text) max_chars [] = Some ([] @ concat css)"
      "list_all2 (\<lambda>doc cs. chunk_text doc max_chars = Some cs) (py_split NEW_DOCUMENT full_text) css"
    by blast
  have "all_chunks_of full_text max_chars = Some (concat css)"
    using css(1) by (simp add: all_chunks_of_def)
  moreover from this have "chunk_all_texts full_text max_chars =
                Some (concat (map (\<lambda>chunk. py_strip chunk @ CHUNK_END) (concat css)))"
    by (simp add: chunk_all_texts_def)
  ultimately show ?thesis using A css(2) by blast
qed

lemma chunk_text_abcde: "chunk_text ''abcde'' 2 = Some [''ab'', ''cd'', ''e'']"
  by (simp add: chunk_text_def chunk_text_loop.simps py_slice_def)

lemma ceiling_five_halves: "\<lceil>5 / 2 :: rat\<rceil> = 3"
  by (rule ceiling_unique) simp_all

text \<open>Witness for C1: a five-character text cut with \<open>max_chars = 2\<close>.\<close>

theorem chunker_chunks_reconstruct_witness:
  "(0::int) < 2 \<and> (\<exists>chunks. chunk_text ''abcde'' 2 = Some chunks \<and> int (length chunks) = 3
      \<and> (\<forall>c\<in>set chunks. int (length c) \<le> 2) \<and> concat chunks = ''abcde'')"
  using chunker_chunks_reconstruct[of 2 "''abcde''" "''a b''"] by (simp add: ceiling_five_halves)

lemma split_docs_a_b: "py_split NEW_DOCUMENT ''a b'' = [''a b'']"
  by (simp add: py_split_def NEW_DOCUMENT_def)

lemma chunk_all_texts_a_b: "chunk_all_texts ''a b'' 2 = Some (''a'' @ CHUNK_END @ ''b'' @ CHUNK_END)"
  by (simp add: chunk_all_texts_def all_chunks_of_def split_docs_a_b chunk_text_def chunk_text_loop.simps py_slice_def py_strip_def py_isspace_def)

lemma split_written_a_b: "py_split CHUNK_END (''a'' @ CHUNK_END @ ''b'' @ CHUNK_END) = [''a'', ''b'', '''']"
  by (simp add: py_split_def CHUNK_END_def)


text \<open>
  Claim C1 as stated fails on the written output: with \<open>max_chars = 2\<close> the text
  \<open>a b\<close> is cut into \<open>"a "\<close> and \<open>"b"\<close>, the first chunk is written stripped, and the
  written chunks (the file split at the end-of-chunk marker) concatenate to \<open>ab\<close>.
\<close>

theorem chunker_written_chunks_counterexample:
  "chunk_all_texts ''a b'' 2 = Some (''a'' @ CHUNK_END @ ''b'' @ CHUNK_END)
   \<and> concat (py_split CHUNK_END (''a'' @ CHUNK_END @ ''b'' @ CHUNK_END)) \<noteq> ''a b''"
  using chunk_all_texts_a_b split_written_a_b by simp

section \<open>Cluster selector: proofs\<close>

lemma div_times_le:
  assumes "(1::int) \<le> s"
  shows "x div s * s \<le> x"
  using div_mult_mod_eq[of x s] pos_mod_sign[of s x] assms by linarith

lemma py_range_nth:
  "i < length (py_range lo hi step) \<Longrightarrow> py_range lo hi step ! i = lo + int i * step"
  by (simp add: py_range_def)

lemma py_range_bounds:
  assumes "1 \<le> step" "k \<in> set (py_range lo hi step)"
  shows "lo \<le> k \<and> k < hi"
proof -
  let ?c = "(hi - lo + step - 1) div step"
  from assms(2) obtain i where i: "i < nat ?c" "k = lo + int i * step"
    by (auto simp: py_range_def)
  have "int i + 1 \<le> ?c" using i(1) by linarith
  then have "(int i + 1) * step \<le> ?c * step"
    using assms(1) by (simp add: mult_right_mono)
  also have "\<dots> \<le> hi - lo + step - 1"
    using assms(1) by (rule div_times_le)
  finally have "int i * step < hi - lo" by (simp add: algebra_simps)
  moreover have "0 \<le> int i * step" using assms(1) by simp
  ultimately show ?thesis using i(2) by linarith
qed

lemma py_range_first:
  assumes "1 \<le> step" "lo < hi"
  shows "py_range lo hi step \<noteq> [] \<and> hd (py_range lo hi step) = lo"
proof -
  have "step \<le> hi - lo + step - 1" using assms by simp
  then have "step div step \<le> (hi - lo + step - 1) div step"
    using assms(1) by (intro zdiv_mono1) simp_all
  then have "0 < nat ((hi - lo + step - 1) div step)" using assms(1) by simp
  then show ?thesis
    by (simp add: py_range_def hd_map upt_conv_Cons)
qed

lemma py_range_unit: "py_range lo hi 1 = [lo..hi - 1]"
proof (rule nth_equalityI)
  show "length (py_range lo hi 1) = length [lo..hi - 1]"
    by (simp add: py_range_def)
next
  fix i assume "i < length (py_range lo hi 1)"
  then show "py_range lo hi 1 ! i = [lo..hi - 1] ! i"
    by (simp add: py_range_def)
qed

lemma py_range_subsampled_length:
  "length (py_range lo hi (max 1 ((hi - lo) div 10))) \<le> 19"
proof -
  let ?d = "hi - lo"
  let ?s = "max 1 (?d div 10)"
  have s1: "1 \<le> ?s" by simp
  have "?d < 10 * ?s + 10"
  proof -
    have "?d = 10 * (?d div 10) + ?d mod 10" by simp
    moreover have "?d mod 10 < 10" by simp
    moreover have "?d div 10 \<le> ?s" by simp
    ultimately show ?thesis by linarith
  qed
  then have "?d + ?s - 1 < 20 * ?s" using s1 by linarith
  have "(?d + ?s - 1) div ?s < 20"
  proof (rule ccontr)
    assume "\<not> (?d + ?s - 1) div ?s < 20"
    then have "20 \<le> (?d + ?s - 1) div ?s" by simp
    then have "20 * ?s \<le> (?d + ?s - 1) div ?s * ?s"
      using s1 by (intro mult_right_mono) simp_all
    also have "\<dots> \<le> ?d + ?s - 1" using s1 by (rule div_times_le)
    finally show False using \<open>?d + ?s - 1 < 20 * ?s\<close> by simp
  qed
  then show ?thesis by (simp add: py_range_def)
qed

text \<open>
  Claim C6 (as amended). The selector's bounds are
  \<open>min_k = min(configured_min, max(2, n div 20))\<close> and
  \<open>max_k = min(configured_max, max(min_k + 2, n div 5))\<close>; its candidates are
  \<open>range(min_k, max_k, step)\<close>, with \<open>step = max(1, (max_k - min_k) div 10)\<close> when
  \<open>max_k > 30\<close> and 1 otherwise. So the candidates are evenly spaced from \<open>min_k\<close>, all
  lie in \<open>[min_k, max_k)\<close>, \<open>min_k\<close> is the first candidate whenever \<open>min_k < max_k\<close>,
  \<open>max_k\<close> itself is never a candidate, a subsampled range has at most 19 candidates,
  and with \<open>max_k \<le> 30\<close> every count from \<open>min_k\<close> to \<open>max_k - 1\<close> is a candidate.
\<close>

theorem cluster_range_candidates:
  fixes n a b :: int
  defines "lo \<equiv> min_k n a"
    and "hi \<equiv> max_k n a b"
    and "rng \<equiv> cluster_range n a b"
  shows "lo = min a (max 2 (n div 20))
       \<and> hi = min b (max (lo + 2) (n div 5))
       \<and> (\<forall>i<length rng. rng ! i = lo + int i * (if 30 < hi then max 1 ((hi - lo) div 10) else 1))
       \<and> (\<forall>k\<in>set rng. lo \<le> k \<and> k < hi)
       \<and> (lo < hi \<longrightarrow> rng \<noteq> [] \<and> hd rng = lo)
       \<and> hi \<notin> set rng
       \<and> (30 < hi \<longrightarrow> length rng \<le> 19)
       \<and> (hi \<le> 30 \<longrightarrow> rng = [lo..hi - 1])"
proof -
  let ?step = "if 30 < hi then max 1 ((hi - lo) div 10) else 1"
  have rng: "rng = py_range lo hi ?step"
    by (simp add: rng_def cluster_range_def Let_def lo_def hi_def)
  have step: "1 \<le> ?step" by simp
  have b: "\<forall>k\<in>set rng. lo \<le> k \<and> k < hi"
    using py_range_bounds[OF step] unfolding rng by blast
  have "lo = min a (max 2 (n div 20))" by (simp add: lo_def min_k_def)
  moreover have "hi = min b (max (lo + 2) (n div 5))" by (simp add: hi_def lo_def max_k_def)
  moreover have "\<forall>i<length rng. rng ! i = lo + int i * ?step"
    unfolding rng using py_range_nth by blast
  moreover note b
  moreover have "lo < hi \<longrightarrow> rng \<noteq> [] \<and> hd rng = lo"
    unfolding rng using py_range_first[OF step] by blast
  moreover have "hi \<notin> set rng" using b by auto
  moreover have "30 < hi \<longrightarrow> length rng \<le> 19"
    unfolding rng using py_range_subsampled_length[of lo hi] by simp
  moreover have "hi \<le> 30 \<longrightarrow> rng = [lo..hi - 1]"
    unfolding rng by (simp add: py_range_unit)
  ultimately show ?thesis by blast
qed

lemma cluster_range_1000: "cluster_range 1000 3 50 = [3, 7, 11, 15, 19, 23, 27, 31, 35, 39, 43, 47]"
  by (simp add: cluster_range_def min_k_def max_k_def py_range_def upt_conv_Cons)

lemma cluster_range_150: "length (cluster_range 150 3 50) = 27"
  by (simp add: cluster_range_def min_k_def max_k_def py_range_def)

text \<open>Witness for C6: a corpus of 1000 chunks with the default bounds 3 and 50.\<close>

theorem cluster_range_candidates_witness:
  "min_k 1000 3 < max_k 1000 3 50 \<and> hd (cluster_range 1000 3 50) = 3
   \<and> 30 < max_k 1000 3 50 \<and> length (cluster_range 1000 3 50) \<le> 19
   \<and> max_k 1000 3 50 \<notin> set (cluster_range 1000 3 50)
   \<and> cluster_range 1000 3 50 ! 2 = 3 + 2 * 4"
  using cluster_range_candidates[of 1000 3 50]
  by (simp add: min_k_def max_k_def cluster_range_1000)

text \<open>
  Claim C6 as stated fails: with 1000 chunks and the defaults, \<open>max_k\<close> is 50 and is not
  among the candidates (the last one is 47); with 150 chunks \<open>max_k\<close> is 30 and all 27
  counts 3..29 are evaluated, with no subsampling.
\<close>

theorem cluster_range_extremes_counterexample:
  "max_k 1000 3 50 = 50 \<and> 50 \<notin> set (cluster_range 1000 3 50)
   \<and> max_k 150 3 50 = 30 \<and> length (cluster_range 150 3 50) = 27"
  by (simp add: cluster_range_1000 cluster_range_150 min_k_def max_k_def)

lemma cluster_range_lower:
  "k \<in> set (cluster_range n a b) \<Longrightarrow> min_k n a \<le> k"
proof -
  assume k: "k \<in> set (cluster_range n a b)"
  let ?lo = "min_k n a" and ?hi = "max_k n a b"
  let ?step = "if 30 < ?hi then max 1 ((?hi - ?lo) div 10) else 1"
  have "cluster_range n a b = py_range ?lo ?hi ?step"
    by (simp add: cluster_range_def Let_def)
  moreover have "1 \<le> ?step" by simp
  ultimately show ?thesis using py_range_bounds[of ?step k ?lo ?hi] k by simp
qed

lemma silhouette_scores_none:
  "(\<forall>k\<in>set ks. n \<le> k \<or> score k = None) \<Longrightarrow> silhouette_scores score n ks = []"
  by (induction ks) auto

lemma determine_optimal_clusters_no_scores:
  assumes "\<forall>k\<in>set (cluster_range n a b). n \<le> k \<or> score k = None"
  shows "determine_optimal_clusters score n a b = min_k n a"
  using silhouette_scores_none[OF assms]
  by (simp add: determine_optimal_clusters_def Let_def)

lemma determine_optimal_clusters_tiny:
  assumes "n \<le> 2" "2 \<le> a"
  shows "determine_optimal_clusters score n a b = 2"
proof -
  have lo: "min_k n a = 2" using assms by (simp add: min_k_def)
  have "\<forall>k\<in>set (cluster_range n a b). n \<le> k \<or> score k = None"
    using cluster_range_lower[of _ n a b] lo assms(1) by fastforce
  from determine_optimal_clusters_no_scores[OF this] lo show ?thesis by simp
qed

text \<open>
  Claim C7. With exactly 2 chunks the selector returns 2 whatever the configured minimum
  (2 or more) and maximum are and whatever the scores are; and whenever no candidate
  yields a score (each one is skipped because \<open>k \<ge> n\<close>, or scoring it raised), the
  selector returns \<open>min_k\<close>.
\<close>

theorem selector_falls_back_to_min_k:
  "(2 \<le> min_clusters \<longrightarrow> determine_optimal_clusters score 2 min_clusters max_clusters = 2)
   \<and> ((\<forall>k\<in>set (cluster_range n a b). n \<le> k \<or> score' k = None)
        \<longrightarrow> determine_optimal_clusters score' n a b = min_k n a)"
  using determine_optimal_clusters_tiny[of 2 min_clusters score max_clusters]
    determine_optimal_clusters_no_scores[of n a b score']
  by blast

lemma cluster_range_1: "cluster_range 1 3 50 = [2, 3]"
  by (simp add: cluster_range_def min_k_def max_k_def py_range_def upt_conv_Cons)

text \<open>
  Witness for C7: 2 chunks with a configured minimum of 5, and 1 chunk with the
  defaults, where both candidates 2 and 3 are skipped.
\<close>

theorem selector_falls_back_to_min_k_witness:
  "(2::int) \<le> 5 \<and> determine_optimal_clusters (flat_score []) 2 5 50 = 2
   \<and> cluster_range 1 3 50 = [2, 3]
   \<and> determine_optimal_clusters (flat_score []) 1 3 50 = min_k 1 3"
  using selector_falls_back_to_min_k[of 5 "flat_score []" 50 1 3 50 "flat_score []"]
  by (simp add: cluster_range_1)

section \<open>Clusterer: proofs\<close>

lemma one_row_rectangular: "length X = 1 \<Longrightarrow> np_array X = Inr X"
proof -
  assume "length X = 1"
  then obtain x where "X = [x]" by (cases X) auto
  then show ?thesis by (simp add: np_array_def rectangular_def)
qed

lemma requested_clusters_one_row:
  assumes "length X = 1" "num_clusters \<noteq> Some 1"
  shows "2 \<le> requested_clusters score X num_clusters"
proof (cases num_clusters)
  case None
  then show ?thesis
    using assms(1) determine_optimal_clusters_tiny[of 1 3 "score X" 50]
    by (simp add: requested_clusters_def)
next
  case (Some k)
  then show ?thesis
    using assms determine_optimal_clusters_tiny[of 1 3 "score X" 50]
    by (auto simp: requested_clusters_def)
qed

text \<open>
  Claim C5 (as amended). With no embedded chunk \<open>perform_clustering\<close> raises its
  "No embeddings found" ValueError and does not call the partition algorithm. With
  exactly one embedded chunk there is no check: the partition algorithm is called, with
  \<open>k = 2\<close> after the logged reduction (or with \<open>k = 1\<close> when 1 was requested), and
  \<open>perform_clustering\<close> returns whatever that call returns.
\<close>

theorem perform_clustering_small_inputs:
  "(vectors_of data = [] \<longrightarrow>
      perform_clustering kmeans score data num_clusters = ([], Inl NoEmbeddingsFound))
   \<and> (length (vectors_of data) = 1 \<longrightarrow>
      perform_clustering kmeans score data num_clusters =
        (if num_clusters = Some 1 then ([], kmeans 1 (vectors_of data))
         else ([Not_enough_data_points 1 (requested_clusters score (vectors_of data) num_clusters),
                Reducing_to 2],
               kmeans 2 (vectors_of data))))"
proof (intro conjI impI)
  assume "vectors_of data = []"
  then show "perform_clustering kmeans score data num_clusters = ([], Inl NoEmbeddingsFound)"
    by (simp add: perform_clustering_def clustering_request_def)
next
  assume one: "length (vectors_of data) = 1"
  then have ne: "vectors_of data \<noteq> []" by auto
  show "perform_clustering kmeans score data num_clusters =
        (if num_clusters = Some 1 then ([], kmeans 1 (vectors_of data))
         else ([Not_enough_data_points 1 (requested_clusters score (vectors_of data) num_clusters),
                Reducing_to 2],
               kmeans 2 (vectors_of data)))"
  proof (cases "num_clusters = Some 1")
    case True
    then show ?thesis using one ne one_row_rectangular[OF one]
      by (simp add: perform_clustering_def clustering_request_def requested_clusters_def Let_def)
  next
    case False
    from requested_clusters_one_row[OF one False, of score]
    have "1 < requested_clusters score (vectors_of data) num_clusters" by simp
    then show ?thesis using one ne False one_row_rectangular[OF one]
      by (simp add: perform_clustering_def clustering_request_def Let_def)
  qed
qed

text \<open>Witness for C5: an empty input, and a single record that carries an embedding.\<close>

theorem perform_clustering_small_inputs_witness:
  "vectors_of [] = []
   \<and> perform_clustering one_cluster_kmeans flat_score [] None = ([], Inl NoEmbeddingsFound)
   \<and> length (vectors_of [\<lparr>item_id = 0, item_text = ''a'', embedding = Some [1], cluster = None\<rparr>]) = 1
   \<and> perform_clustering one_cluster_kmeans flat_score
        [\<lparr>item_id = 0, item_text = ''a'', embedding = Some [1], cluster = None\<rparr>] None
      = ([Not_enough_data_points 1
            (requested_clusters flat_score
               (vectors_of [\<lparr>item_id = 0, item_text = ''a'', embedding = Some [1], cluster = None\<rparr>]) None),
          Reducing_to 2], Inl LibraryError)"
  using perform_clustering_small_inputs[of "[]" one_cluster_kmeans flat_score None]
    perform_clustering_small_inputs[of
      "[\<lparr>item_id = 0, item_text = ''a'', embedding = Some [1], cluster = None\<rparr>]"
      one_cluster_kmeans flat_score None]
  by (simp add: one_cluster_kmeans_def)

text \<open>
  Claim C5 as stated fails: with a single embedded chunk the clusterer reaches its KMeans
  call, asking for 2 clusters on 1 row; and when 1 cluster is requested it returns a
  partition and reports no failure.
\<close>

theorem perform_clustering_one_chunk_counterexample:
  "clustering_request flat_score
     [\<lparr>item_id = 0, item_text = ''a'', embedding = Some [1], cluster = None\<rparr>] None
     = Inr ([Not_enough_data_points 1 2, Reducing_to 2], 2, [[1]])
   \<and> perform_clustering one_cluster_kmeans flat_score
     [\<lparr>item_id = 0, item_text = ''a'', embedding = Some [1], cluster = None\<rparr>] (Some 1)
     = ([], Inr [0])"
  by (simp add: perform_clustering_def clustering_request_def requested_clusters_def
      determine_optimal_clusters_def cluster_range_1 flat_score_def min_k_def
      one_cluster_kmeans_def np_array_def rectangular_def)

text \<open>
  Claim C8. With \<open>n \<ge> 2\<close> embedded chunks, whose vectors all have the same length (they
  come from one fitted vocabulary), and a requested cluster count above \<open>n\<close>, the
  clusterer prints the adjustment, lowers the count to \<open>max(2, n div 3)\<close>, which is
  between 2 and \<open>n\<close>, and returns the labels of the partition algorithm run with that
  count. The partition algorithm is the library's: it is assumed to return one label
  in \<open>[0, k)\<close> per row whenever it is given an array with \<open>1 \<le> k \<le> n\<close>.
\<close>

theorem clusterer_reduces_k:
  assumes "2 \<le> length (vectors_of data)"
    and "rectangular (vectors_of data)"
    and "int (length (vectors_of data)) < requested_clusters score (vectors_of data) num_clusters"
    and "\<forall>k X. rectangular X \<and> 1 \<le> k \<and> k \<le> int (length X) \<longrightarrow>
           (\<exists>labels. kmeans k X = Inr labels \<and> length labels = length X
              \<and> (\<forall>l\<in>set labels. 0 \<le> l \<and> l < k))"
  shows "\<exists>labels.
           perform_clustering kmeans score data num_clusters =
             ([Not_enough_data_points (int (length (vectors_of data)))
                 (requested_clusters score (vectors_of data) num_clusters),
               Reducing_to (max 2 (int (length (vectors_of data)) div 3))],
              Inr labels)
           \<and> kmeans (max 2 (int (length (vectors_of data)) div 3)) (vectors_of data) = Inr labels
           \<and> length labels = length (vectors_of data)
           \<and> (\<forall>l\<in>set labels. 0 \<le> l \<and> l < max 2 (int (length (vectors_of data)) div 3))
           \<and> max 2 (int (length (vectors_of data)) div 3) \<le> int (length (vectors_of data))"
proof -
  let ?X = "vectors_of data"
  let ?n = "int (length ?X)"
  let ?k = "max 2 (?n div 3)"
  have ne: "?X \<noteq> []" using assms(1) by auto
  have k: "1 \<le> ?k" "?k \<le> ?n" using assms(1) by auto
  with assms(2,4) obtain labels where l: "kmeans ?k ?X = Inr labels" "length labels = length ?X"
    "\<forall>l\<in>set labels. 0 \<le> l \<and> l < ?k" by blast
  have "perform_clustering kmeans score data num_clusters =
      ([Not_enough_data_points ?n (requested_clusters score ?X num_clusters), Reducing_to ?k],
       Inr labels)"
    using ne assms(2,3) l(1)
    by (simp add: perform_clustering_def clustering_request_def np_array_def Let_def)
  then show ?thesis using l k by blast
qed

lemma one_cluster_kmeans_contract:
  "\<forall>k X. rectangular X \<and> 1 \<le> k \<and> k \<le> int (length X) \<longrightarrow>
     (\<exists>labels. one_cluster_kmeans k X = Inr labels \<and> length labels = length X
        \<and> (\<forall>l\<in>set labels. 0 \<le> l \<and> l < k))"
  by (auto simp: one_cluster_kmeans_def)

text \<open>Witness for C8: two embedded chunks and a request for 5 clusters.\<close>

theorem clusterer_reduces_k_witness:
  "2 \<le> length (vectors_of [\<lparr>item_id = 0, item_text = ''a'', embedding = Some [1], cluster = None\<rparr>,
                          \<lparr>item_id = 1, item_text = ''b'', embedding = Some [2], cluster = None\<rparr>])
   \<and> perform_clustering one_cluster_kmeans flat_score
        [\<lparr>item_id = 0, item_text = ''a'', embedding = Some [1], cluster = None\<rparr>,
         \<lparr>item_id = 1, item_text = ''b'', embedding = Some [2], cluster = None\<rparr>] (Some 5)
      = ([Not_enough_data_points 2 5, Reducing_to 2], Inr [0, 0])"
proof -
  let ?data = "[\<lparr>item_id = 0, item_text = ''a'', embedding = Some [1], cluster = None\<rparr>,
                \<lparr>item_id = 1, item_text = ''b'', embedding = Some [2], cluster = None\<rparr>]"
  have v: "vectors_of ?data = [[1], [2]]" by simp
  have h1: "2 \<le> length (vectors_of ?data)" by simp
  have hr: "rectangular (vectors_of ?data)" by (simp add: rectangular_def)
  have h2: "int (length (vectors_of ?data)) < requested_clusters flat_score (vectors_of ?data) (Some 5)"
    by (simp add: requested_clusters_def)
  have e: "one_cluster_kmeans 2 [[1], [2]] = Inr [0, 0]"
    by (simp add: one_cluster_kmeans_def)
  from clusterer_reduces_k[OF h1 hr h2 one_cluster_kmeans_contract]
  show ?thesis by (simp add: requested_clusters_def e)
qed

text \<open>
  With vectors of unequal length the array cannot be built: the ValueError is raised
  before anything is printed and before the partition algorithm is called.
\<close>

lemma perform_clustering_unequal_rows:
  assumes "vectors_of data \<noteq> []" "\<not> rectangular (vectors_of data)"
  shows "perform_clustering kmeans score data num_clusters = ([], Inl InhomogeneousShape)"
  using assms by (simp add: perform_clustering_def clustering_request_def np_array_def)

section \<open>Attaching labels: proofs\<close>

lemma save_loop_spec:
  "i + length cs \<le> length data \<Longrightarrow>
   \<exists>out. save_loop data i cs = Inr out \<and> length out = length data
     \<and> (\<forall>j<length data. out ! j =
           (if i \<le> j \<and> j < i + length cs then (data ! j)\<lparr>cluster := Some (cs ! (j - i))\<rparr>
            else data ! j))"
proof (induction cs arbitrary: data i)
  case Nil
  then show ?case by auto
next
  case (Cons c cs)
  let ?d = "data[i := (data ! i)\<lparr>cluster := Some c\<rparr>]"
  have i: "i < length data" using Cons.prems by simp
  have "Suc i + length cs \<le> length ?d" using Cons.prems by simp
  from Cons.IH[OF this] obtain out where out: "save_loop ?d (Suc i) cs = Inr out"
    "length out = length ?d"
    "\<forall>j<length ?d. out ! j =
       (if Suc i \<le> j \<and> j < Suc i + length cs then (?d ! j)\<lparr>cluster := Some (cs ! (j - Suc i))\<rparr>
        else ?d ! j)"
    by blast
  have "save_loop data i (c # cs) = Inr out" using i out(1) by simp
  moreover have "length out = length data" using out(2) by simp
  moreover have "\<forall>j<length data. out ! j =
       (if i \<le> j \<and> j < i + length (c # cs) then (data ! j)\<lparr>cluster := Some ((c # cs) ! (j - i))\<rparr>
        else data ! j)"
  proof (intro allI impI)
    fix j assume j: "j < length data"
    then have o: "out ! j =
       (if Suc i \<le> j \<and> j < Suc i + length cs then (?d ! j)\<lparr>cluster := Some (cs ! (j - Suc i))\<rparr>
        else ?d ! j)" using out(3) by simp
    show "out ! j =
       (if i \<le> j \<and> j < i + length (c # cs) then (data ! j)\<lparr>cluster := Some ((c # cs) ! (j - i))\<rparr>
        else data ! j)"
    proof (cases "j = i")
      case True
      then show ?thesis using o j by simp
    next
      case False
      then have "?d ! j = data ! j" by simp
      moreover have "Suc i \<le> j \<Longrightarrow> (c # cs) ! (j - i) = cs ! (j - Suc i)"
        by (simp add: Suc_diff_le)
      ultimately show ?thesis using o False by auto
    qed
  qed
  ultimately show ?case by blast
qed

lemma positions_from_length:
  "length (positions_from i data) = length (vectors_of data)"
  by (induction data arbitrary: i)
     (auto simp: has_embedding_def split: option.splits list.splits)

lemma positions_from_le_length: "length (positions_from i data) \<le> length data"
  by (induction data arbitrary: i) (auto simp: le_SucI)

lemma positions_from_nth:
  "j < length (positions_from i data) \<Longrightarrow>
     i + j \<le> positions_from i data ! j \<and> positions_from i data ! j < i + length data
     \<and> embedding (data ! (positions_from i data ! j - i)) = Some (vectors_of data ! j)"
proof (induction data arbitrary: i j)
  case Nil
  then show ?case by simp
next
  case (Cons it its)
  show ?case
  proof (cases "has_embedding it")
    case True
    then obtain v vs where e: "embedding it = Some (v # vs)"
      by (auto simp: has_embedding_def split: option.splits list.splits)
    show ?thesis
    proof (cases j)
      case 0
      then show ?thesis using True e by simp
    next
      case (Suc j')
      then have "j' < length (positions_from (Suc i) its)" using Cons.prems True by simp
      from Cons.IH[OF this] show ?thesis using True e Suc
        by (auto simp: nth_Cons' Suc_diff_le)
    qed
  next
    case False
    then have v: "vectors_of (it # its) = vectors_of its"
      by (auto simp: has_embedding_def split: option.splits list.splits)
    have "j < length (positions_from (Suc i) its)" using Cons.prems False by simp
    from Cons.IH[OF this] show ?thesis using False v
      by (auto simp: nth_Cons' Suc_diff_le)
  qed
qed

lemma positions_from_fixed:
  "j < length (positions_from i data) \<Longrightarrow>
     (positions_from i data ! j = i + j)
       = (\<forall>p. i + p < positions_from i data ! j \<longrightarrow> has_embedding (data ! p))"
proof (induction data arbitrary: i j)
  case Nil
  then show ?case by simp
next
  case (Cons it its)
  show ?case
  proof (cases "has_embedding it")
    case True
    show ?thesis
    proof (cases j)
      case 0
      then show ?thesis using True by simp
    next
      case (Suc j')
      then have j': "j' < length (positions_from (Suc i) its)" using Cons.prems True by simp
      let ?q = "positions_from (Suc i) its ! j'"
      have q: "positions_from i (it # its) ! j = ?q" using True Suc by simp
      have "(\<forall>p. i + p < ?q \<longrightarrow> has_embedding ((it # its) ! p))
             = (\<forall>p. Suc i + p < ?q \<longrightarrow> has_embedding (its ! p))"
      proof
        assume a: "\<forall>p. i + p < ?q \<longrightarrow> has_embedding ((it # its) ! p)"
        show "\<forall>p. Suc i + p < ?q \<longrightarrow> has_embedding (its ! p)"
        proof (intro allI impI)
          fix p assume "Suc i + p < ?q"
          then have "i + Suc p < ?q" by simp
          with a have "has_embedding ((it # its) ! Suc p)" by blast
          then show "has_embedding (its ! p)" by simp
        qed
      next
        assume a: "\<forall>p. Suc i + p < ?q \<longrightarrow> has_embedding (its ! p)"
        show "\<forall>p. i + p < ?q \<longrightarrow> has_embedding ((it # its) ! p)"
        proof (intro allI impI)
          fix p assume p: "i + p < ?q"
          show "has_embedding ((it # its) ! p)"
          proof (cases p)
            case 0
            then show ?thesis using True by simp
          next
            case (Suc p')
            then have "Suc i + p' < ?q" using p by simp
            with a show ?thesis using Suc by simp
          qed
        qed
      qed
      with Cons.IH[OF j'] q Suc show ?thesis by simp
    qed
  next
    case False
    then have j': "j < length (positions_from (Suc i) its)" using Cons.prems by simp
    have q: "positions_from i (it # its) ! j = positions_from (Suc i) its ! j"
      using False by simp
    from positions_from_nth[OF j'] have lt: "i + j < positions_from (Suc i) its ! j" by simp
    then have "i + 0 < positions_from i (it # its) ! j" using q by simp
    moreover have "\<not> has_embedding ((it # its) ! 0)" using False by simp
    ultimately have "\<not> (\<forall>p. i + p < positions_from i (it # its) ! j
        \<longrightarrow> has_embedding ((it # its) ! p))" by blast
    then show ?thesis using lt q by simp
  qed
qed

lemma positions_from_all:
  "(length (positions_from i data) = length data) = (\<forall>it\<in>set data. has_embedding it)"
proof (induction data arbitrary: i)
  case Nil
  then show ?case by simp
next
  case (Cons it its)
  show ?case
  proof (cases "has_embedding it")
    case True
    then show ?thesis using Cons.IH[of "Suc i"] by simp
  next
    case False
    then show ?thesis using positions_from_le_length[of "Suc i" its] by auto
  qed
qed

text \<open>
  Claim C10. \<open>save_clustered_data\<close> writes the i-th label onto the i-th record and
  leaves the records past the last label as they were (no \<open>cluster\<close> key is added).
  The clusterer returns one label per record with a non-empty embedding, and label
  \<open>j\<close> was computed from the vector of the record at position
  \<open>embedded_positions data ! j\<close>, which is never before \<open>j\<close> and is \<open>j\<close> exactly when no
  earlier record lacks an embedding. So every record receives the label of its own
  vector if and only if every record carries a non-empty embedding; otherwise there are
  fewer labels than records, labels computed after a record without embedding land on
  earlier records, and the trailing records receive none.
\<close>

theorem labels_attached_by_position:
  assumes "length labels = length (vectors_of data)"
  shows "\<exists>out. save_clustered_data data labels = Inr out \<and> length out = length data
     \<and> (\<forall>i<length labels. out ! i = (data ! i)\<lparr>cluster := Some (labels ! i)\<rparr>)
     \<and> (\<forall>i. length labels \<le> i \<and> i < length data \<longrightarrow> out ! i = data ! i)
     \<and> (\<forall>j<length labels.
           j \<le> embedded_positions data ! j \<and> embedded_positions data ! j < length data
           \<and> embedding (data ! (embedded_positions data ! j)) = Some (vectors_of data ! j)
           \<and> ((embedded_positions data ! j = j)
                = (\<forall>p<embedded_positions data ! j. has_embedding (data ! p))))
     \<and> ((length labels = length data \<and> (\<forall>j<length labels. embedded_positions data ! j = j))
          = (\<forall>it\<in>set data. has_embedding it))
     \<and> ((\<exists>it\<in>set data. \<not> has_embedding it) \<longrightarrow> length labels < length data)"
proof -
  have len: "length labels = length (embedded_positions data)"
    using assms by (simp add: embedded_positions_def positions_from_length)
  have le: "length labels \<le> length data"
    using len positions_from_le_length[of 0 data] by (simp add: embedded_positions_def)
  then have "0 + length labels \<le> length data" by simp
  from save_loop_spec[OF this] obtain out where out:
    "save_loop data 0 labels = Inr out" "length out = length data"
    "\<forall>j<length data. out ! j =
       (if 0 \<le> j \<and> j < 0 + length labels then (data ! j)\<lparr>cluster := Some (labels ! (j - 0))\<rparr>
        else data ! j)" by blast
  have A: "\<forall>i<length labels. out ! i = (data ! i)\<lparr>cluster := Some (labels ! i)\<rparr>"
    using out(3) le by simp
  have B: "\<forall>i. length labels \<le> i \<and> i < length data \<longrightarrow> out ! i = data ! i"
    using out(3) by simp
  have C: "\<forall>j<length labels.
           j \<le> embedded_positions data ! j \<and> embedded_positions data ! j < length data
           \<and> embedding (data ! (embedded_positions data ! j)) = Some (vectors_of data ! j)
           \<and> ((embedded_positions data ! j = j)
                = (\<forall>p<embedded_positions data ! j. has_embedding (data ! p)))"
  proof (intro allI impI)
    fix j assume "j < length labels"
    then have j: "j < length (positions_from 0 data)"
      using len by (simp add: embedded_positions_def)
    from positions_from_nth[OF j] positions_from_fixed[OF j]
    show "j \<le> embedded_positions data ! j \<and> embedded_positions data ! j < length data
           \<and> embedding (data ! (embedded_positions data ! j)) = Some (vectors_of data ! j)
           \<and> ((embedded_positions data ! j = j)
                = (\<forall>p<embedded_positions data ! j. has_embedding (data ! p)))"
      by (simp add: embedded_positions_def)
  qed
  have all: "(length labels = length data) = (\<forall>it\<in>set data. has_embedding it)"
    using len positions_from_all[of 0 data] by (simp add: embedded_positions_def)
  have D: "(length labels = length data \<and> (\<forall>j<length labels. embedded_positions data ! j = j))
          = (\<forall>it\<in>set data. has_embedding it)"
  proof
    assume "length labels = length data \<and> (\<forall>j<length labels. embedded_positions data ! j = j)"
    then show "\<forall>it\<in>set data. has_embedding it" using all by simp
  next
    assume a: "\<forall>it\<in>set data. has_embedding it"
    then have l: "length labels = length data" using all by simp
    have "\<forall>j<length labels. embedded_positions data ! j = j"
    proof (intro allI impI)
      fix j assume j: "j < length labels"
      with C have p: "embedded_positions data ! j < length data"
        "(embedded_positions data ! j = j)
                = (\<forall>p<embedded_positions data ! j. has_embedding (data ! p))" by simp_all
      have "\<forall>p<embedded_positions data ! j. has_embedding (data ! p)"
        using a p(1) by simp
      then show "embedded_positions data ! j = j" using p(2) by simp
    qed
    with l show "length labels = length data \<and> (\<forall>j<length labels. embedded_positions data ! j = j)"
      by simp
  qed
  have E: "(\<exists>it\<in>set data. \<not> has_embedding it) \<longrightarrow> length labels < length data"
    using all le by auto
  have "save_clustered_data data labels = Inr out"
    using out(1) by (simp add: save_clustered_data_def)
  with out(2) A B C D E show ?thesis by blast
qed

text \<open>
  Witness for C10: the first record has no embedding, the second has one; the single
  label, computed from the second record's vector, is written onto the first record and
  the second record gets no \<open>cluster\<close> key.
\<close>

theorem labels_attached_by_position_witness:
  "length [4::int] = length (vectors_of
      [\<lparr>item_id = 0, item_text = ''a'', embedding = None, cluster = None\<rparr>,
       \<lparr>item_id = 1, item_text = ''b'', embedding = Some [1], cluster = None\<rparr>])
   \<and> save_clustered_data
      [\<lparr>item_id = 0, item_text = ''a'', embedding = None, cluster = None\<rparr>,
       \<lparr>item_id = 1, item_text = ''b'', embedding = Some [1], cluster = None\<rparr>] [4]
     = Inr [\<lparr>item_id = 0, item_text = ''a'', embedding = None, cluster = Some 4\<rparr>,
            \<lparr>item_id = 1, item_text = ''b'', embedding = Some [1], cluster = None\<rparr>]
   \<and> embedded_positions
      [\<lparr>item_id = 0, item_text = ''a'', embedding = None, cluster = None\<rparr>,
       \<lparr>item_id = 1, item_text = ''b'', embedding = Some [1], cluster = None\<rparr>] ! 0 = 1"
proof -
  let ?data = "[\<lparr>item_id = 0, item_text = ''a'', embedding = None, cluster = None\<rparr>,
       \<lparr>item_id = 1, item_text = ''b'', embedding = Some [1], cluster = None\<rparr>]"
  have h: "length [4::int] = length (vectors_of ?data)" by simp
  from labels_attached_by_position[OF h] obtain out where
    "save_clustered_data ?data [4] = Inr out" by blast
  then show ?thesis
    by (simp add: save_clustered_data_def embedded_positions_def has_embedding_def)
qed

section \<open>Aggregator: proofs\<close>

lemma dict_append_mset:
  "mset (concat (map snd (dict_append d cid it))) = mset (concat (map snd d)) + {#it#}"
  by (induction d cid it rule: dict_append.induct) auto

lemma dict_append_keys:
  "set (map fst (dict_append d cid it)) = insert cid (set (map fst d))"
  by (induction d cid it rule: dict_append.induct) auto

lemma dict_append_distinct:
  "distinct (map fst d) \<Longrightarrow> distinct (map fst (dict_append d cid it))"
proof (induction d cid it rule: dict_append.induct)
  case (1 cid it)
  then show ?case by simp
next
  case (2 k v d cid it)
  show ?case
  proof (cases "k = cid")
    case True
    then show ?thesis using 2 by simp
  next
    case False
    have "k \<notin> set (map fst (dict_append d cid it))"
      using 2(2) False by (simp only: dict_append_keys) auto
    then show ?thesis using 2 False by simp
  qed
qed

lemma dict_append_grouped:
  "grouped_by_key d \<Longrightarrow> cluster it = Some cid \<Longrightarrow> grouped_by_key (dict_append d cid it)"
  by (induction d cid it rule: dict_append.induct) (auto simp: grouped_by_key_def)

lemma organize_spec:
  "organize its d = Inr r \<Longrightarrow> distinct (map fst d) \<Longrightarrow> grouped_by_key d \<Longrightarrow>
     mset (concat (map snd r)) = mset (concat (map snd d)) + mset its
     \<and> distinct (map fst r) \<and> grouped_by_key r"
proof (induction its arbitrary: d)
  case Nil
  then show ?case by simp
next
  case (Cons it its)
  from Cons.prems(1) obtain cid where cid: "cluster it = Some cid"
    "organize its (dict_append d cid it) = Inr r"
    by (auto split: option.splits)
  from Cons.IH[OF cid(2) dict_append_distinct[OF Cons.prems(2)]
      dict_append_grouped[OF Cons.prems(3) cid(1)]]
  show ?case by (simp add: dict_append_mset)
qed

lemma organize_total:
  "(\<forall>it\<in>set its. cluster it \<noteq> None) \<Longrightarrow> \<exists>r. organize its d = Inr r"
  by (induction its arbitrary: d) auto

lemma generate_clusters:
  assumes "generate_docexplore_json title description clustered_data cluster_names sim cpp
             = (w, Inr art)"
  shows "\<exists>r. organize clustered_data [] = Inr r
           \<and> map entry_id (art_clusters art) = map fst r
           \<and> map entry_items (art_clusters art) = map snd r"
proof -
  from assms obtain r where r: "organize clustered_data [] = Inr r"
    by (auto simp: generate_docexplore_json_def Let_def split: sum.splits)
  with assms have "art_clusters art =
      map (\<lambda>(cid, its).
             \<lparr>entry_id = cid,
              entry_name = (case cluster_names (str_int cid) of
                              Some n \<Rightarrow> n | None \<Rightarrow> ''Cluster '' @ str_int cid),
              entry_items = its\<rparr>) r"
    by (auto simp: generate_docexplore_json_def Let_def)
  then have "map entry_id (art_clusters art) = map fst r"
    "map entry_items (art_clusters art) = map snd r"
    by (simp_all add: case_prod_unfold comp_def)
  with r show ?thesis by blast
qed

lemma generate_partition:
  assumes g: "generate_docexplore_json title description clustered_data cluster_names sim cpp
      = (w, Inr art)"
  shows "distinct (map entry_id (art_clusters art))"
    and "mset (concat (map entry_items (art_clusters art))) = mset clustered_data"
    and "\<forall>c\<in>set (art_clusters art). \<forall>it\<in>set (entry_items c). cluster it = Some (entry_id c)"
proof -
  from generate_clusters[OF g] obtain r where r: "organize clustered_data [] = Inr r"
    "map entry_id (art_clusters art) = map fst r"
    "map entry_items (art_clusters art) = map snd r" by blast
  from organize_spec[OF r(1)] have s: "mset (concat (map snd r)) = mset clustered_data"
    "distinct (map fst r)" "grouped_by_key r"
    by (simp_all add: grouped_by_key_def)
  show "distinct (map entry_id (art_clusters art))" using s(2) r(2) by simp
  show "mset (concat (map entry_items (art_clusters art))) = mset clustered_data"
    using s(1) r(3) by simp
  show "\<forall>c\<in>set (art_clusters art). \<forall>it\<in>set (entry_items c). cluster it = Some (entry_id c)"
  proof (intro ballI)
    fix c it assume c: "c \<in> set (art_clusters art)" and it: "it \<in> set (entry_items c)"
    from c obtain i where i: "i < length (art_clusters art)" "art_clusters art ! i = c"
      by (auto simp: in_set_conv_nth)
    have lr: "length r = length (art_clusters art)"
      using r(2) by (metis length_map)
    have "fst (r ! i) = entry_id c" "snd (r ! i) = entry_items c"
      using i lr r(2) r(3) by (metis nth_map)+
    moreover have "r ! i \<in> set r" using i lr by simp
    ultimately show "cluster it = Some (entry_id c)"
      using s(3) it by (auto simp: grouped_by_key_def)
  qed
qed

lemma organize_Inr_clusters:
  "organize its d = Inr r \<Longrightarrow> \<forall>it\<in>set its. cluster it \<noteq> None"
  by (induction its arbitrary: d) (auto split: option.splits)

lemma organize_missing_cluster:
  "\<exists>it\<in>set its. cluster it = None \<Longrightarrow> organize its d = Inl KeyError"
proof (induction its arbitrary: d)
  case Nil
  then show ?case by simp
next
  case (Cons it its)
  show ?case
  proof (cases "cluster it")
    case None
    then show ?thesis by simp
  next
    case (Some cid)
    then have "\<exists>x\<in>set its. cluster x = None" using Cons.prems by auto
    from Cons.IH[OF this] show ?thesis using Some by simp
  qed
qed

lemma save_loop_same_fields:
  "save_loop data i cs = Inr out \<Longrightarrow>
     length out = length data \<and> (\<forall>j<length data. \<exists>x. out ! j = (data ! j)\<lparr>cluster := x\<rparr>)"
proof (induction cs arbitrary: data i)
  case Nil
  then have "out = data" by simp
  moreover have "\<forall>j<length data. data ! j = (data ! j)\<lparr>cluster := cluster (data ! j)\<rparr>"
    by simp
  ultimately show ?case by blast
next
  case (Cons c cs)
  let ?d = "data[i := (data ! i)\<lparr>cluster := Some c\<rparr>]"
  have i: "i < length data" using Cons.prems by (auto split: if_splits)
  then have "save_loop ?d (Suc i) cs = Inr out" using Cons.prems by simp
  from Cons.IH[OF this] have l: "length out = length data"
    and f: "\<forall>j<length data. \<exists>x. out ! j = (?d ! j)\<lparr>cluster := x\<rparr>" by simp_all
  have "\<forall>j<length data. \<exists>x. out ! j = (data ! j)\<lparr>cluster := x\<rparr>"
  proof (intro allI impI)
    fix j assume j: "j < length data"
    with f obtain x where x: "out ! j = (?d ! j)\<lparr>cluster := x\<rparr>" by blast
    show "\<exists>x. out ! j = (data ! j)\<lparr>cluster := x\<rparr>"
    proof (cases "j = i")
      case True
      then have "out ! j = (data ! j)\<lparr>cluster := x\<rparr>" using x i by simp
      then show ?thesis by blast
    next
      case False
      then have "out ! j = (data ! j)\<lparr>cluster := x\<rparr>" using x by simp
      then show ?thesis by blast
    qed
  qed
  with l show ?case by blast
qed

lemma silhouette_scores_keys:
  "p \<in> set (silhouette_scores score n ks) \<Longrightarrow> fst p \<in> set ks \<and> fst p < n"
  by (induction ks) (auto split: if_splits option.splits)

lemma max_by_score_mem: "max_by_score best xs \<in> set (best # xs)"
  by (induction xs arbitrary: best) auto

lemma determine_optimal_clusters_range:
  assumes "2 \<le> a"
  shows "2 \<le> determine_optimal_clusters score n a b
         \<and> (determine_optimal_clusters score n a b = min_k n a
            \<or> determine_optimal_clusters score n a b < n)"
proof -
  let ?rng = "cluster_range n a b"
  have lo: "2 \<le> min_k n a" using assms by (simp add: min_k_def)
  show ?thesis
  proof (cases "length ?rng < 2")
    case True
    then show ?thesis using lo by (simp add: determine_optimal_clusters_def Let_def)
  next
    case False
    show ?thesis
    proof (cases "silhouette_scores score n ?rng")
      case Nil
      then show ?thesis using lo False by (simp add: determine_optimal_clusters_def Let_def)
    next
      case (Cons x xs)
      have "max_by_score x xs \<in> set (silhouette_scores score n ?rng)"
        using max_by_score_mem[of x xs] Cons by simp
      from silhouette_scores_keys[OF this]
      have m: "fst (max_by_score x xs) \<in> set ?rng" "fst (max_by_score x xs) < n" by simp_all
      from cluster_range_lower[OF m(1)] lo have "2 \<le> fst (max_by_score x xs)" by simp
      moreover have "determine_optimal_clusters score n a b = fst (max_by_score x xs)"
        using False Cons by (simp add: determine_optimal_clusters_def Let_def)
      ultimately show ?thesis using m(2) by simp
    qed
  qed
qed

lemma perform_clustering_labels:
  assumes n: "2 \<le> length (vectors_of data)"
    and r: "rectangular (vectors_of data)"
    and c: "\<forall>k X. rectangular X \<and> 1 \<le> k \<and> k \<le> int (length X) \<longrightarrow>
           (\<exists>labels. kmeans k X = Inr labels \<and> length labels = length X)"
  shows "\<exists>labels. snd (perform_clustering kmeans score data None) = Inr labels
           \<and> length labels = length (vectors_of data)"
proof -
  let ?X = "vectors_of data"
  let ?n = "int (length ?X)"
  let ?k0 = "determine_optimal_clusters (score ?X) ?n 3 50"
  have ne: "?X \<noteq> []" using n by auto
  from determine_optimal_clusters_range[of 3 "score ?X" ?n 50]
  have k0: "2 \<le> ?k0" by simp
  show ?thesis
  proof (cases "?n < ?k0")
    case True
    let ?k = "max 2 (?n div 3)"
    have "1 \<le> ?k" "?k \<le> ?n" using n by auto
    with r c obtain labels where l: "kmeans ?k ?X = Inr labels" "length labels = length ?X"
      by blast
    have "snd (perform_clustering kmeans score data None) = Inr labels"
      using ne r True l(1)
      by (simp add: perform_clustering_def clustering_request_def np_array_def
          requested_clusters_def Let_def)
    with l(2) show ?thesis by blast
  next
    case False
    then have "1 \<le> ?k0" "?k0 \<le> ?n" using k0 by simp_all
    with r c obtain labels where l: "kmeans ?k0 ?X = Inr labels" "length labels = length ?X"
      by blast
    have "snd (perform_clustering kmeans score data None) = Inr labels"
      using ne r False l(1)
      by (simp add: perform_clustering_def clustering_request_def np_array_def
          requested_clusters_def Let_def)
    with l(2) show ?thesis by blast
  qed
qed

lemma clustering_main_fields:
  assumes "clustering_main kmeans score data = Inr clustered"
  shows "length clustered = length data
         \<and> (\<forall>j<length data. \<exists>x. clustered ! j = (data ! j)\<lparr>cluster := x\<rparr>)"
proof -
  have "\<exists>cs. save_loop data 0 cs = Inr clustered"
  proof (cases "snd (perform_clustering kmeans score data None)")
    case (Inl e)
    then have "save_loop data 0 [] = Inr clustered"
      using assms by (simp add: clustering_main_def save_clustered_data_def split: if_splits)
    then show ?thesis by (rule exI)
  next
    case (Inr labels)
    then have "save_loop data 0 labels = Inr clustered"
      using assms by (simp add: clustering_main_def save_clustered_data_def)
    then show ?thesis by (rule exI)
  qed
  then obtain cs where "save_loop data 0 cs = Inr clustered" by blast
  from save_loop_same_fields[OF this] show ?thesis .
qed

text \<open>
  Claim C2. For every run of the clustering script followed by the assembly script on
  chunk records: when the run yields an artifact, the artifact's clusters partition the
  input records. The clustered records are the input records, in order, each with a
  cluster label as its only change; cluster ids are pairwise distinct; the clusters'
  item lists together hold exactly the clustered records and so exactly the input's
  chunk ids; every item sits in the cluster named by its own label; and, chunk ids
  being distinct, every chunk id appears in exactly one cluster's item list. A run on at
  least two records that all carry an embedding of one common length does yield an
  artifact, the partition algorithm returning one label per row. A run that leaves
  some record without a label ends in the assembly's KeyError and yields no artifact.
\<close>

theorem clusters_partition_chunks:
  "(cluster_and_assemble kmeans score title description cluster_names sim cpp embeddings_data
      = Inr art
      \<longrightarrow> (\<exists>clustered. clustering_main kmeans score embeddings_data = Inr clustered
             \<and> length clustered = length embeddings_data
             \<and> (\<forall>i<length embeddings_data.
                   \<exists>l. clustered ! i = (embeddings_data ! i)\<lparr>cluster := Some l\<rparr>)
             \<and> mset (concat (map entry_items (art_clusters art))) = mset clustered)
        \<and> distinct (map entry_id (art_clusters art))
        \<and> mset (map item_id (concat (map entry_items (art_clusters art))))
            = mset (map item_id embeddings_data)
        \<and> (\<forall>c\<in>set (art_clusters art). \<forall>it\<in>set (entry_items c). cluster it = Some (entry_id c))
        \<and> (distinct (map item_id embeddings_data) \<longrightarrow>
             (\<forall>it\<in>set embeddings_data.
                \<exists>!c. c \<in> set (art_clusters art) \<and> item_id it \<in> item_id ` set (entry_items c))))
   \<and> (2 \<le> length embeddings_data
        \<and> (\<forall>it\<in>set embeddings_data. has_embedding it)
        \<and> rectangular (vectors_of embeddings_data)
        \<and> (\<forall>k X. rectangular X \<and> 1 \<le> k \<and> k \<le> int (length X) \<longrightarrow>
              (\<exists>labels. kmeans k X = Inr labels \<and> length labels = length X))
      \<longrightarrow> (\<exists>art'. cluster_and_assemble kmeans score title description cluster_names sim cpp
                      embeddings_data = Inr art'))
   \<and> ((\<exists>clustered. clustering_main kmeans score embeddings_data = Inr clustered
          \<and> (\<exists>it\<in>set clustered. cluster it = None))
      \<longrightarrow> cluster_and_assemble kmeans score title description cluster_names sim cpp
            embeddings_data = Inl KeyError)"
proof (intro conjI impI)
  assume a: "cluster_and_assemble kmeans score title description cluster_names sim cpp
      embeddings_data = Inr art"
  then obtain clustered where cm: "clustering_main kmeans score embeddings_data = Inr clustered"
    by (auto simp: cluster_and_assemble_def split: sum.splits)
  with a have "snd (generate_docexplore_json title description clustered cluster_names sim cpp)
      = Inr art" by (simp add: cluster_and_assemble_def)
  then obtain w where g: "generate_docexplore_json title description clustered cluster_names
      sim cpp = (w, Inr art)" by (cases "generate_docexplore_json title description clustered
      cluster_names sim cpp") simp
  note P = generate_partition[OF g]
  from clustering_main_fields[OF cm] have len: "length clustered = length embeddings_data"
    and fields: "\<forall>j<length embeddings_data.
        \<exists>x. clustered ! j = (embeddings_data ! j)\<lparr>cluster := x\<rparr>" by simp_all
  from generate_clusters[OF g] obtain r where "organize clustered [] = Inr r" by blast
  from organize_Inr_clusters[OF this] have some: "\<forall>it\<in>set clustered. cluster it \<noteq> None" .
  have lab: "\<forall>i<length embeddings_data.
                   \<exists>l. clustered ! i = (embeddings_data ! i)\<lparr>cluster := Some l\<rparr>"
  proof (intro allI impI)
    fix i assume i: "i < length embeddings_data"
    with fields obtain x where x: "clustered ! i = (embeddings_data ! i)\<lparr>cluster := x\<rparr>"
      by blast
    have "clustered ! i \<in> set clustered" using i len by simp
    with some have "cluster (clustered ! i) \<noteq> None" by blast
    then obtain l where "x = Some l" using x by auto
    with x show "\<exists>l. clustered ! i = (embeddings_data ! i)\<lparr>cluster := Some l\<rparr>" by blast
  qed
  show "\<exists>clustered. clustering_main kmeans score embeddings_data = Inr clustered
             \<and> length clustered = length embeddings_data
             \<and> (\<forall>i<length embeddings_data.
                   \<exists>l. clustered ! i = (embeddings_data ! i)\<lparr>cluster := Some l\<rparr>)
             \<and> mset (concat (map entry_items (art_clusters art))) = mset clustered"
    using cm len lab P(2) by blast
  show d: "distinct (map entry_id (art_clusters art))" by (rule P(1))
  have ids: "map item_id clustered = map item_id embeddings_data"
  proof (rule nth_equalityI)
    show "length (map item_id clustered) = length (map item_id embeddings_data)"
      using len by simp
  next
    fix i assume "i < length (map item_id clustered)"
    then have i: "i < length embeddings_data" using len by simp
    with fields obtain x where "clustered ! i = (embeddings_data ! i)\<lparr>cluster := x\<rparr>"
      by blast
    then show "map item_id clustered ! i = map item_id embeddings_data ! i"
      using i len by simp
  qed
  have "mset (map item_id (concat (map entry_items (art_clusters art))))
      = mset (map item_id clustered)"
    using P(2) by (metis mset_map)
  then show m: "mset (map item_id (concat (map entry_items (art_clusters art))))
            = mset (map item_id embeddings_data)" using ids by simp
  show grp: "\<forall>c\<in>set (art_clusters art). \<forall>it\<in>set (entry_items c). cluster it = Some (entry_id c)"
    by (rule P(3))
  show "\<forall>it\<in>set embeddings_data.
          \<exists>!c. c \<in> set (art_clusters art) \<and> item_id it \<in> item_id ` set (entry_items c)"
    if dist: "distinct (map item_id embeddings_data)"
  proof
    fix it assume it: "it \<in> set embeddings_data"
    have "distinct (map item_id clustered)" using dist ids by simp
    then have inj: "inj_on item_id (set clustered)" by (simp add: distinct_map)
    have sets: "set (concat (map entry_items (art_clusters art))) = set clustered"
      using P(2) by (metis set_mset_mset)
    have "item_id it \<in> set (map item_id clustered)" using it ids by simp
    then obtain it0 where it0: "it0 \<in> set clustered" "item_id it0 = item_id it" by auto
    with sets obtain c where c: "c \<in> set (art_clusters art)" "it0 \<in> set (entry_items c)"
      by auto
    show "\<exists>!c. c \<in> set (art_clusters art) \<and> item_id it \<in> item_id ` set (entry_items c)"
    proof (rule ex1I[of _ c])
      have "item_id it0 \<in> item_id ` set (entry_items c)" using c(2) by (rule imageI)
      then show "c \<in> set (art_clusters art) \<and> item_id it \<in> item_id ` set (entry_items c)"
        using c(1) it0(2) by simp
    next
      fix c' assume c': "c' \<in> set (art_clusters art) \<and> item_id it \<in> item_id ` set (entry_items c')"
      then obtain it' where it': "it' \<in> set (entry_items c')" "item_id it' = item_id it"
        by auto
      have mem: "it' \<in> set clustered" using it'(1) c' sets by auto
      have "item_id it' = item_id it0" using it0(2) it'(2) by simp
      from inj_onD[OF inj this mem it0(1)] have "it' = it0" .
      then have "cluster it0 = Some (entry_id c')" using grp c' it'(1) by auto
      moreover have "cluster it0 = Some (entry_id c)" using grp c by auto
      ultimately have "entry_id c' = entry_id c" by simp
      moreover have "inj_on entry_id (set (art_clusters art))"
        using d by (simp add: distinct_map)
      ultimately show "c' = c" using c(1) c' by (auto dest: inj_onD)
    qed
  qed
next
  assume h: "2 \<le> length embeddings_data
        \<and> (\<forall>it\<in>set embeddings_data. has_embedding it)
        \<and> rectangular (vectors_of embeddings_data)
        \<and> (\<forall>k X. rectangular X \<and> 1 \<le> k \<and> k \<le> int (length X) \<longrightarrow>
              (\<exists>labels. kmeans k X = Inr labels \<and> length labels = length X))"
  have all: "length (vectors_of embeddings_data) = length embeddings_data"
    using h positions_from_all[of 0 embeddings_data] positions_from_length[of 0 embeddings_data]
    by simp
  have n: "2 \<le> length (vectors_of embeddings_data)" using h all by simp
  from h have r: "rectangular (vectors_of embeddings_data)"
    and c: "\<forall>k X. rectangular X \<and> 1 \<le> k \<and> k \<le> int (length X) \<longrightarrow>
              (\<exists>labels. kmeans k X = Inr labels \<and> length labels = length X)" by blast+
  from perform_clustering_labels[OF n r c, of score] obtain labels where
    l: "snd (perform_clustering kmeans score embeddings_data None) = Inr labels"
    "length labels = length (vectors_of embeddings_data)" by blast
  have "0 + length labels \<le> length embeddings_data" using l(2) all by simp
  from save_loop_spec[OF this] obtain saved where saved:
    "save_loop embeddings_data 0 labels = Inr saved" "length saved = length embeddings_data"
    "\<forall>j<length embeddings_data. saved ! j =
       (if 0 \<le> j \<and> j < 0 + length labels
        then (embeddings_data ! j)\<lparr>cluster := Some (labels ! (j - 0))\<rparr>
        else embeddings_data ! j)" by blast
  have cm: "clustering_main kmeans score embeddings_data = Inr saved"
    using l(1) saved(1) by (simp add: clustering_main_def save_clustered_data_def)
  have "\<forall>it\<in>set saved. cluster it \<noteq> None"
  proof
    fix it assume "it \<in> set saved"
    then obtain j where j: "j < length saved" "saved ! j = it"
      by (auto simp: in_set_conv_nth)
    then have "it = (embeddings_data ! j)\<lparr>cluster := Some (labels ! j)\<rparr>"
      using saved(2,3) l(2) all by auto
    then show "cluster it \<noteq> None" by simp
  qed
  from organize_total[OF this, of "[]"] obtain r' where "organize saved [] = Inr r'" by blast
  then have "\<exists>art'. snd (generate_docexplore_json title description saved cluster_names sim cpp)
               = Inr art'"
    by (simp add: generate_docexplore_json_def Let_def)
  then show "\<exists>art'. cluster_and_assemble kmeans score title description cluster_names sim cpp
                      embeddings_data = Inr art'"
    using cm by (simp add: cluster_and_assemble_def)
next
  assume "\<exists>clustered. clustering_main kmeans score embeddings_data = Inr clustered
          \<and> (\<exists>it\<in>set clustered. cluster it = None)"
  then obtain clustered where cm: "clustering_main kmeans score embeddings_data = Inr clustered"
    and miss: "\<exists>it\<in>set clustered. cluster it = None" by blast
  from organize_missing_cluster[OF miss, of "[]"]
  have "snd (generate_docexplore_json title description clustered cluster_names sim cpp)
      = Inl KeyError"
    by (simp add: generate_docexplore_json_def Let_def)
  then show "cluster_and_assemble kmeans score title description cluster_names sim cpp
            embeddings_data = Inl KeyError"
    using cm by (simp add: cluster_and_assemble_def)
qed

lemma cluster_range_2: "cluster_range 2 3 50 = [2, 3]"
  by (simp add: cluster_range_def min_k_def max_k_def py_range_def upt_conv_Cons)

lemma two_chunk_run:
  "cluster_and_assemble one_cluster_kmeans flat_score ''t'' ''d'' Map.empty (4 / 5) 20
     [\<lparr>item_id = 0, item_text = ''a'', embedding = Some [1], cluster = None\<rparr>,
      \<lparr>item_id = 1, item_text = ''b'', embedding = Some [2], cluster = None\<rparr>]
   = Inr \<lparr>art_title = ''t'', art_description = ''d'', art_similarity = 4 / 5,
          art_charsPerPixel = 20,
          art_clusters =
            [\<lparr>entry_id = 0, entry_name = ''Cluster 0'',
              entry_items =
                [\<lparr>item_id = 0, item_text = ''a'', embedding = Some [1], cluster = Some 0\<rparr>,
                 \<lparr>item_id = 1, item_text = ''b'', embedding = Some [2], cluster = Some 0\<rparr>]\<rparr>]\<rparr>"
proof -
  have s0: "str_int 0 = ''0''" by (simp add: str_int_def str_nat.simps)
  have k: "one_cluster_kmeans 2 [[1], [2]] = Inr [0, 0]" by (simp add: one_cluster_kmeans_def)
  have d: "determine_optimal_clusters (flat_score [[1], [2]]) 2 3 50 = 2"
    by (rule determine_optimal_clusters_tiny) simp_all
  have p: "perform_clustering one_cluster_kmeans flat_score
     [\<lparr>item_id = 0, item_text = ''a'', embedding = Some [1], cluster = None\<rparr>,
      \<lparr>item_id = 1, item_text = ''b'', embedding = Some [2], cluster = None\<rparr>] None
     = ([], Inr [0, 0])"
    by (simp add: perform_clustering_def clustering_request_def np_array_def rectangular_def
        requested_clusters_def d k)
  show ?thesis
    by (simp add: cluster_and_assemble_def clustering_main_def p save_clustered_data_def
        generate_docexplore_json_def s0)
qed

lemma one_chunk_main:
  "clustering_main one_cluster_kmeans flat_score
     [\<lparr>item_id = 0, item_text = ''a'', embedding = Some [1], cluster = None\<rparr>]
   = Inr [\<lparr>item_id = 0, item_text = ''a'', embedding = Some [1], cluster = None\<rparr>]"
proof -
  have d: "determine_optimal_clusters (flat_score [[1]]) 1 3 50 = 2"
    by (rule determine_optimal_clusters_tiny) simp_all
  have k: "one_cluster_kmeans 2 [[1]] = Inl LibraryError" by (simp add: one_cluster_kmeans_def)
  have p: "perform_clustering one_cluster_kmeans flat_score
     [\<lparr>item_id = 0, item_text = ''a'', embedding = Some [1], cluster = None\<rparr>] None
     = ([Not_enough_data_points 1 2, Reducing_to 2], Inl LibraryError)"
    by (simp add: perform_clustering_def clustering_request_def np_array_def rectangular_def
        requested_clusters_def d k)
  show ?thesis
    by (simp add: clustering_main_def p is_ValueError_def save_clustered_data_def)
qed

text \<open>
  Witness for C2: a run on two embedded records, which yields an artifact with one
  cluster holding both chunk ids; and a run on a single record, where the partition
  algorithm refuses 2 clusters on 1 row, the record is saved without a label, and the
  assembly ends in KeyError.
\<close>

theorem clusters_partition_chunks_witness:
  "(\<exists>art. cluster_and_assemble one_cluster_kmeans flat_score ''t'' ''d'' Map.empty (4 / 5) 20
       [\<lparr>item_id = 0, item_text = ''a'', embedding = Some [1], cluster = None\<rparr>,
        \<lparr>item_id = 1, item_text = ''b'', embedding = Some [2], cluster = None\<rparr>] = Inr art
     \<and> distinct (map entry_id (art_clusters art))
     \<and> mset (map item_id (concat (map entry_items (art_clusters art)))) = {#0, 1#})
   \<and> cluster_and_assemble one_cluster_kmeans flat_score ''t'' ''d'' Map.empty (4 / 5) 20
       [\<lparr>item_id = 0, item_text = ''a'', embedding = Some [1], cluster = None\<rparr>]
      = Inl KeyError"
proof -
  let ?two = "[\<lparr>item_id = 0, item_text = ''a'', embedding = Some [1], cluster = None\<rparr>,
        \<lparr>item_id = 1, item_text = ''b'', embedding = Some [2], cluster = None\<rparr>]"
  let ?one = "[\<lparr>item_id = 0, item_text = ''a'', embedding = Some [1], cluster = None\<rparr>]"
  let ?art = "\<lparr>art_title = ''t'', art_description = ''d'', art_similarity = 4 / 5,
          art_charsPerPixel = 20,
          art_clusters =
            [\<lparr>entry_id = 0, entry_name = ''Cluster 0'',
              entry_items =
                [\<lparr>item_id = 0, item_text = ''a'', embedding = Some [1], cluster = Some 0\<rparr>,
                 \<lparr>item_id = 1, item_text = ''b'', embedding = Some [2], cluster = Some 0\<rparr>]\<rparr>]\<rparr>"
  note T2 = clusters_partition_chunks[of one_cluster_kmeans flat_score "''t''" "''d''"
      Map.empty "4 / 5" 20 ?two ?art]
  note T1 = clusters_partition_chunks[of one_cluster_kmeans flat_score "''t''" "''d''"
      Map.empty "4 / 5" 20 ?one ?art]
  from T2[THEN conjunct1, rule_format, OF two_chunk_run]
  have "distinct (map entry_id (art_clusters ?art))"
    and "mset (map item_id (concat (map entry_items (art_clusters ?art))))
            = mset (map item_id ?two)" by blast+
  then have A: "\<exists>art. cluster_and_assemble one_cluster_kmeans flat_score ''t'' ''d'' Map.empty
       (4 / 5) 20 ?two = Inr art
     \<and> distinct (map entry_id (art_clusters art))
     \<and> mset (map item_id (concat (map entry_items (art_clusters art)))) = {#0, 1#}"
    using two_chunk_run by (intro exI[of _ ?art]) simp
  have "\<exists>clustered. clustering_main one_cluster_kmeans flat_score ?one = Inr clustered
          \<and> (\<exists>it\<in>set clustered. cluster it = None)"
    using one_chunk_main by simp
  from T1[THEN conjunct2, THEN conjunct2, rule_format, OF this]
  have B: "cluster_and_assemble one_cluster_kmeans flat_score ''t'' ''d'' Map.empty (4 / 5) 20
       ?one = Inl KeyError" .
  from A B show ?thesis by (rule conjI)
qed

text \<open>
  Claim C4 (as amended). When the clustered input is empty the aggregator prints a
  warning, signals no error, and still writes an artifact, whose cluster list is empty.
\<close>

theorem aggregator_empty_input:
  "generate_docexplore_json title description [] cluster_names similarity_threshold charsPerPixel
   = ([Clustered_data_is_empty],
      Inr \<lparr>art_title = title, art_description = description,
           art_similarity = similarity_threshold, art_charsPerPixel = charsPerPixel,
           art_clusters = []\<rparr>)"
  by (simp add: generate_docexplore_json_def)

text \<open>
  Claim C4 as stated fails: on an empty input, with the parameters of the script's
  main block, the result is not an error but an artifact with no clusters.
\<close>

theorem aggregator_empty_input_counterexample:
  "snd (generate_docexplore_json ''Document Insights''
          ''Explore key topics and insights extracted from the document.''
          [] Map.empty (4 / 5) 20)
   = Inr \<lparr>art_title = ''Document Insights'',
          art_description = ''Explore key topics and insights extracted from the document.'',
          art_similarity = 4 / 5, art_charsPerPixel = 20, art_clusters = []\<rparr>"
  by (simp add: generate_docexplore_json_def)

section \<open>Topic namer: proofs\<close>

text \<open>
  Claim C3 (as amended). \<open>name_cluster\<close> always returns a label and never lets an
  exception out. It returns \<open>"Topic {cluster_id}"\<close> when the text list is empty or when
  phrase selection yields nothing; when an error occurs inside (in particular when the
  vectorizer raises, as it does on texts made of stop words only) it returns
  \<open>"Cluster {cluster_id}"\<close>.
\<close>

theorem name_cluster_fallback_labels:
  "(text_samples = [] \<longrightarrow>
      name_cluster mk vectorize text_samples cid = ''Topic '' @ str_int cid)
   \<and> (text_samples \<noteq> [] \<and> vectorize text_samples = Inr ranked \<and> selected_phrases mk ranked = []
        \<longrightarrow> name_cluster mk vectorize text_samples cid = ''Topic '' @ str_int cid)
   \<and> (text_samples \<noteq> [] \<and> vectorize text_samples = Inl e
        \<longrightarrow> name_cluster mk vectorize text_samples cid = ''Cluster '' @ str_int cid)
   \<and> (name_cluster_body mk vectorize text_samples cid = Inl e
        \<longrightarrow> name_cluster mk vectorize text_samples cid = ''Cluster '' @ str_int cid)"
  by (simp add: name_cluster_def name_cluster_body_def)

lemma str_int_7: "str_int 7 = ''7''"
  by (simp add: str_int_def str_nat.simps)

text \<open>
  Witness for C3: an empty cluster, a cluster for which no feature is found, and a
  cluster on which the vectorizer raises.
\<close>

theorem name_cluster_fallback_labels_witness:
  "name_cluster 5 raising_vectorizer [] 7 = ''Topic 7''
   \<and> name_cluster 5 featureless_vectorizer [''the and of''] 7 = ''Topic 7''
   \<and> name_cluster 5 raising_vectorizer [''the and of''] 7 = ''Cluster 7''"
  using name_cluster_fallback_labels[of "[]" 5 raising_vectorizer 7 "[]" LibraryError]
    name_cluster_fallback_labels[of "[''the and of'']" 5 featureless_vectorizer 7 "[]" LibraryError]
    name_cluster_fallback_labels[of "[''the and of'']" 5 raising_vectorizer 7 "[]" LibraryError]
  by (simp add: str_int_7 raising_vectorizer_def featureless_vectorizer_def
      selected_phrases_def py_slice_def)

text \<open>
  Claim C3 as stated fails: when the vectorizer raises on a cluster of stop words, the
  label is \<open>Cluster 7\<close>, not \<open>Topic 7\<close>.
\<close>

theorem name_cluster_error_label_counterexample:
  "name_cluster 5 raising_vectorizer [''the and of''] 7 = ''Cluster 7''
   \<and> name_cluster 5 raising_vectorizer [''the and of''] 7 \<noteq> ''Topic 7''"
  by (simp add: name_cluster_def name_cluster_body_def raising_vectorizer_def str_int_7)

section \<open>Topic overlap: proofs\<close>

lemma overlap_score_jaccard:
  "overlap_score A B =
     (if card (A \<union> B) = 0 then 0 else of_nat (card (A \<inter> B)) / of_nat (card (A \<union> B)))"
  by (simp add: overlap_score_def Let_def)

lemma overlap_score_sym: "overlap_score A B = overlap_score B A"
  by (simp add: overlap_score_def Int_commute Un_commute)

lemma overlap_score_bounds: "0 \<le> overlap_score A B \<and> overlap_score A B \<le> 1"
proof (cases "card (A \<union> B) = 0")
  case True
  then show ?thesis by (simp add: overlap_score_def)
next
  case False
  then have pos: "0 < card (A \<union> B)" by simp
  then have fin: "finite (A \<union> B)" by (simp add: card_gt_0_iff)
  have sub: "A \<inter> B \<subseteq> A \<union> B" by blast
  have "card (A \<inter> B) \<le> card (A \<union> B)"
    using fin sub by (rule card_mono)
  then have le: "(of_nat (card (A \<inter> B)) :: rat) \<le> of_nat (card (A \<union> B))"
    by (simp only: of_nat_le_iff)
  have p: "(0::rat) < of_nat (card (A \<union> B))" using pos by simp
  have s: "overlap_score A B = of_nat (card (A \<inter> B)) / of_nat (card (A \<union> B))"
    using pos by (simp add: overlap_score_def Let_def)
  have "(0::rat) \<le> of_nat (card (A \<inter> B)) / of_nat (card (A \<union> B))"
    using p by (simp add: divide_nonneg_pos)
  moreover have "of_nat (card (A \<inter> B)) / of_nat (card (A \<union> B)) \<le> (1::rat)"
    using le p by (simp add: divide_le_eq_1)
  ultimately show ?thesis by (simp only: s)
qed

lemma overlap_score_disjoint: "A \<inter> B = {} \<Longrightarrow> overlap_score A B = 0"
  by (simp add: overlap_score_def Let_def)

lemma overlaps_with_set:
  "(x \<in> set (overlaps_with rnd W ti rest)) =
     (\<exists>j<length rest.
        1 / 10 < overlap_score (W (fst ti)) (W (fst (rest ! j)))
        \<and> x = (snd ti, snd (rest ! j), rnd (overlap_score (W (fst ti)) (W (fst (rest ! j))))))"
proof (induction rest)
  case Nil
  then show ?case by simp
next
  case (Cons tj rest)
  let ?P = "\<lambda>t. 1 / 10 < overlap_score (W (fst ti)) (W (fst t))
        \<and> x = (snd ti, snd t, rnd (overlap_score (W (fst ti)) (W (fst t))))"
  have ex: "(\<exists>j<length (tj # rest). ?P ((tj # rest) ! j)) = (?P tj \<or> (\<exists>j<length rest. ?P (rest ! j)))"
  proof
    assume "\<exists>j<length (tj # rest). ?P ((tj # rest) ! j)"
    then obtain j where j: "j < length (tj # rest)" "?P ((tj # rest) ! j)" by blast
    show "?P tj \<or> (\<exists>j<length rest. ?P (rest ! j))"
    proof (cases j)
      case 0
      then show ?thesis using j by simp
    next
      case (Suc j')
      then have "j' < length rest" "?P (rest ! j')" using j by simp_all
      then show ?thesis by blast
    qed
  next
    assume "?P tj \<or> (\<exists>j<length rest. ?P (rest ! j))"
    then show "\<exists>j<length (tj # rest). ?P ((tj # rest) ! j)"
    proof
      assume "?P tj"
      then have "0 < length (tj # rest) \<and> ?P ((tj # rest) ! 0)" by simp
      then show ?thesis by blast
    next
      assume "\<exists>j<length rest. ?P (rest ! j)"
      then obtain j where "j < length rest" "?P (rest ! j)" by blast
      then have "Suc j < length (tj # rest) \<and> ?P ((tj # rest) ! Suc j)" by simp
      then show ?thesis by blast
    qed
  qed
  have step: "(x \<in> set (overlaps_with rnd W ti (tj # rest)))
      = (?P tj \<or> x \<in> set (overlaps_with rnd W ti rest))"
  proof (cases "1 / 10 < overlap_score (W (fst ti)) (W (fst tj))")
    case True
    then show ?thesis by (simp add: Let_def)
  next
    case False
    then show ?thesis by (simp add: Let_def)
  qed
  show ?case by (simp only: step Cons.IH ex)
qed

lemma all_overlaps_set:
  "(x \<in> set (all_overlaps rnd W topics)) =
     (\<exists>i j. i < j \<and> j < length topics
        \<and> 1 / 10 < overlap_score (W (fst (topics ! i))) (W (fst (topics ! j)))
        \<and> x = (snd (topics ! i), snd (topics ! j),
                rnd (overlap_score (W (fst (topics ! i))) (W (fst (topics ! j))))))"
proof (induction topics)
  case Nil
  then show ?case by simp
next
  case (Cons ti rest)
  let ?Q = "\<lambda>s t. 1 / 10 < overlap_score (W (fst s)) (W (fst t))
        \<and> x = (snd s, snd t, rnd (overlap_score (W (fst s)) (W (fst t))))"
  have "(\<exists>i j. i < j \<and> j < length (ti # rest) \<and> ?Q ((ti # rest) ! i) ((ti # rest) ! j))
      = ((\<exists>j<length rest. ?Q ti (rest ! j))
         \<or> (\<exists>i j. i < j \<and> j < length rest \<and> ?Q (rest ! i) (rest ! j)))"
  proof
    assume "\<exists>i j. i < j \<and> j < length (ti # rest) \<and> ?Q ((ti # rest) ! i) ((ti # rest) ! j)"
    then obtain i j where ij: "i < j" "j < length (ti # rest)"
      "?Q ((ti # rest) ! i) ((ti # rest) ! j)" by blast
    from ij(1) obtain j' where j': "j = Suc j'" by (cases j) auto
    show "(\<exists>j<length rest. ?Q ti (rest ! j))
         \<or> (\<exists>i j. i < j \<and> j < length rest \<and> ?Q (rest ! i) (rest ! j))"
    proof (cases i)
      case 0
      then have "j' < length rest" "?Q ti (rest ! j')" using ij j' by simp_all
      then show ?thesis by blast
    next
      case (Suc i')
      then have "i' < j'" "j' < length rest" "?Q (rest ! i') (rest ! j')"
        using ij j' by simp_all
      then show ?thesis by blast
    qed
  next
    assume "(\<exists>j<length rest. ?Q ti (rest ! j))
         \<or> (\<exists>i j. i < j \<and> j < length rest \<and> ?Q (rest ! i) (rest ! j))"
    then show "\<exists>i j. i < j \<and> j < length (ti # rest) \<and> ?Q ((ti # rest) ! i) ((ti # rest) ! j)"
    proof
      assume "\<exists>j<length rest. ?Q ti (rest ! j)"
      then obtain j where "j < length rest" "?Q ti (rest ! j)" by blast
      then have "0 < Suc j \<and> Suc j < length (ti # rest)
          \<and> ?Q ((ti # rest) ! 0) ((ti # rest) ! Suc j)" by simp
      then show ?thesis by blast
    next
      assume "\<exists>i j. i < j \<and> j < length rest \<and> ?Q (rest ! i) (rest ! j)"
      then obtain i j where "i < j" "j < length rest" "?Q (rest ! i) (rest ! j)" by blast
      then have "Suc i < Suc j \<and> Suc j < length (ti # rest)
          \<and> ?Q ((ti # rest) ! Suc i) ((ti # rest) ! Suc j)" by simp
      then show ?thesis by blast
    qed
  qed
  note ex = this
  have step: "(x \<in> set (all_overlaps rnd W (ti # rest)))
      = (x \<in> set (overlaps_with rnd W ti rest) \<or> x \<in> set (all_overlaps rnd W rest))"
    by simp
  show ?case by (simp only: step Cons.IH overlaps_with_set ex)
qed

lemma py_lower_char_idem: "py_lower_char (py_lower_char c) = py_lower_char c"
  by (simp add: py_lower_char_def)

lemma py_lower_char_space: "py_lower_char CHR '' '' = CHR '' ''"
  by (simp add: py_lower_char_def)

lemma split_ws_aux_chars:
  "w \<in> set (split_ws_aux cur s) \<Longrightarrow> set w \<subseteq> set cur \<union> set s"
proof (induction s arbitrary: cur)
  case Nil
  then show ?case by (auto split: if_splits)
next
  case (Cons c cs)
  show ?case
  proof (cases "py_isspace c")
    case True
    then have "w = cur \<or> w \<in> set (split_ws_aux [] cs)"
      using Cons.prems by (auto split: if_splits)
    then show ?thesis using Cons.IH[of "[]"] by auto
  next
    case False
    then have "w \<in> set (split_ws_aux (cur @ [c]) cs)" using Cons.prems by simp
    from Cons.IH[OF this] show ?thesis by auto
  qed
qed

lemma py_join_chars: "set (py_join sep xs) \<subseteq> set sep \<union> \<Union> (set ` set xs)"
  by (induction sep xs rule: py_join.induct) auto

lemma lookup_dict_append:
  "lookup_texts (dict_append d cid x) k =
     (if k = cid then lookup_texts d cid @ [x] else lookup_texts d k)"
  by (induction d cid x rule: dict_append.induct) (auto simp: lookup_texts_def)

lemma topic_texts_lookup:
  "cid \<in> fst ` set topics \<Longrightarrow>
     lookup_texts (topic_texts data topics acc) cid = lookup_texts acc cid @ texts_of data cid"
proof (induction data arbitrary: acc)
  case Nil
  then show ?case by (simp add: texts_of_def)
next
  case (Cons it its)
  show ?case
  proof (cases "cluster it")
    case None
    then show ?thesis using Cons by (simp add: texts_of_def)
  next
    case (Some k)
    show ?thesis
    proof (cases "k \<in> fst ` set topics")
      case True
      then show ?thesis using Some Cons.IH[OF Cons.prems]
        by (simp add: texts_of_def lookup_dict_append)
    next
      case False
      then have "k \<noteq> cid" using Cons.prems by auto
      then show ?thesis using Some False Cons.IH[OF Cons.prems]
        by (simp add: texts_of_def)
    qed
  qed
qed

lemma topic_words_texts:
  assumes "cid \<in> fst ` set topics"
  shows "topic_words (topic_texts data topics []) cid
           = significant_words (py_join '' '' (texts_of data cid))"
proof -
  have l: "lookup_texts (topic_texts data topics []) cid = texts_of data cid"
    using topic_texts_lookup[OF assms, of data "[]"] by (simp add: lookup_texts_def)
  show ?thesis
  proof (cases "map_of (topic_texts data topics []) cid")
    case None
    then have "texts_of data cid = []" using l by (simp add: lookup_texts_def)
    then show ?thesis using None
      by (simp add: topic_words_def significant_words_def py_split_ws_def)
  next
    case (Some ts)
    then have "texts_of data cid = ts" using l by (simp add: lookup_texts_def)
    then show ?thesis using Some by (simp add: topic_words_def)
  qed
qed

lemma significant_words_lower:
  assumes "w \<in> significant_words (py_join '' '' (texts_of data cid))"
  shows "py_lower w = w"
proof -
  from assms have "w \<in> set (split_ws_aux [] (py_join '' '' (texts_of data cid)))"
    by (simp add: significant_words_def py_split_ws_def)
  from split_ws_aux_chars[OF this] py_join_chars[of "'' ''" "texts_of data cid"]
  have sub: "set w \<subseteq> set '' '' \<union> \<Union> (set ` set (texts_of data cid))" by auto
  have "\<forall>c\<in>set w. py_lower_char c = c"
  proof
    fix c assume "c \<in> set w"
    with sub consider "c = CHR '' ''" | t where "t \<in> set (texts_of data cid)" "c \<in> set t"
      by auto
    then show "py_lower_char c = c"
    proof cases
      case 1
      then show ?thesis by (simp add: py_lower_char_space)
    next
      case 2
      then obtain u where "t = map py_lower_char u"
        by (auto simp: texts_of_def py_lower_def)
      with 2(2) obtain d where "c = py_lower_char d" by auto
      then show ?thesis by (simp add: py_lower_char_idem)
    qed
  qed
  then show ?thesis by (simp add: py_lower_def map_idI)
qed

text \<open>
  Claim C9. For the topics \<open>i < j\<close> of \<open>topics_dict\<close> (every unordered pair once) the
  overlap score is the Jaccard ratio of the two topics' significant-word sets, where the
  significant words of a topic are the distinct words of its records' lower-cased texts
  that are longer than 3 characters and alphabetic. A pair is reported exactly when its
  ratio exceeds \<open>1/10\<close>, with the ratio rounded by \<open>round(_, 2)\<close>. The score is
  symmetric and lies in \<open>[0, 1]\<close>, and two topics with disjoint significant-word sets
  score 0 and are not reported.
\<close>

theorem topic_overlap_thresholded_jaccard:
  fixes clustered_data :: "item list" and topics :: "(int \<times> string) list"
  defines "W \<equiv> topic_words (topic_texts clustered_data topics [])"
  shows "(\<forall>cid\<in>fst ` set topics.
            W cid = {w \<in> set (py_split_ws (py_join '' '' (texts_of clustered_data cid))).
                       3 < length w \<and> py_isalpha w}
            \<and> (\<forall>w\<in>W cid. py_lower w = w))
       \<and> (\<forall>A B. overlap_score A B
                   = (if card (A \<union> B) = 0 then 0
                      else of_nat (card (A \<inter> B)) / of_nat (card (A \<union> B)))
               \<and> overlap_score A B = overlap_score B A
               \<and> 0 \<le> overlap_score A B \<and> overlap_score A B \<le> 1
               \<and> (A \<inter> B = {} \<longrightarrow> overlap_score A B = 0))
       \<and> (\<forall>x. (x \<in> set (compute_topic_overlap round2 clustered_data topics)) =
               (\<exists>i j. i < j \<and> j < length topics
                  \<and> 1 / 10 < overlap_score (W (fst (topics ! i))) (W (fst (topics ! j)))
                  \<and> x = (snd (topics ! i), snd (topics ! j),
                          round2 (overlap_score (W (fst (topics ! i))) (W (fst (topics ! j)))))))
       \<and> (distinct (map snd topics) \<longrightarrow>
            (\<forall>i j r. i < j \<and> j < length topics
                 \<and> W (fst (topics ! i)) \<inter> W (fst (topics ! j)) = {}
               \<longrightarrow> (snd (topics ! i), snd (topics ! j), r)
                     \<notin> set (compute_topic_overlap round2 clustered_data topics)))"
proof (intro conjI)
  show "\<forall>cid\<in>fst ` set topics.
            W cid = {w \<in> set (py_split_ws (py_join '' '' (texts_of clustered_data cid))).
                       3 < length w \<and> py_isalpha w}
            \<and> (\<forall>w\<in>W cid. py_lower w = w)"
  proof
    fix cid assume c: "cid \<in> fst ` set topics"
    have w: "W cid = significant_words (py_join '' '' (texts_of clustered_data cid))"
      unfolding W_def by (rule topic_words_texts[OF c])
    have "W cid = {w \<in> set (py_split_ws (py_join '' '' (texts_of clustered_data cid))).
                       3 < length w \<and> py_isalpha w}"
      unfolding w by (auto simp: significant_words_def)
    moreover have "\<forall>w\<in>W cid. py_lower w = w"
      unfolding w using significant_words_lower by blast
    ultimately show "W cid = {w \<in> set (py_split_ws (py_join '' '' (texts_of clustered_data cid))).
                       3 < length w \<and> py_isalpha w}
            \<and> (\<forall>w\<in>W cid. py_lower w = w)" by blast
  qed
next
  show "\<forall>A B. overlap_score A B
                   = (if card (A \<union> B) = 0 then 0
                      else of_nat (card (A \<inter> B)) / of_nat (card (A \<union> B)))
               \<and> overlap_score A B = overlap_score B A
               \<and> 0 \<le> overlap_score A B \<and> overlap_score A B \<le> 1
               \<and> (A \<inter> B = {} \<longrightarrow> overlap_score A B = 0)"
    using overlap_score_jaccard overlap_score_sym overlap_score_bounds overlap_score_disjoint
    by blast
next
  show "\<forall>x. (x \<in> set (compute_topic_overlap round2 clustered_data topics)) =
               (\<exists>i j. i < j \<and> j < length topics
                  \<and> 1 / 10 < overlap_score (W (fst (topics ! i))) (W (fst (topics ! j)))
                  \<and> x = (snd (topics ! i), snd (topics ! j),
                          round2 (overlap_score (W (fst (topics ! i))) (W (fst (topics ! j))))))"
    unfolding W_def compute_topic_overlap_def by (rule allI) (rule all_overlaps_set)
next
  show "distinct (map snd topics) \<longrightarrow>
            (\<forall>i j r. i < j \<and> j < length topics
                 \<and> W (fst (topics ! i)) \<inter> W (fst (topics ! j)) = {}
               \<longrightarrow> (snd (topics ! i), snd (topics ! j), r)
                     \<notin> set (compute_topic_overlap round2 clustered_data topics))"
  proof (intro impI allI)
    fix i j r
    assume d: "distinct (map snd topics)"
      and h: "i < j \<and> j < length topics \<and> W (fst (topics ! i)) \<inter> W (fst (topics ! j)) = {}"
    show "(snd (topics ! i), snd (topics ! j), r)
            \<notin> set (compute_topic_overlap round2 clustered_data topics)"
    proof
      assume "(snd (topics ! i), snd (topics ! j), r)
            \<in> set (compute_topic_overlap round2 clustered_data topics)"
      then obtain i' j' where ij: "i' < j'" "j' < length topics"
        "1 / 10 < overlap_score (W (fst (topics ! i'))) (W (fst (topics ! j')))"
        "snd (topics ! i) = snd (topics ! i')" "snd (topics ! j) = snd (topics ! j')"
        unfolding W_def compute_topic_overlap_def all_overlaps_set by auto
      have li: "i < length (map snd topics)" "i' < length (map snd topics)"
        and lj: "j < length (map snd topics)" "j' < length (map snd topics)"
        using ij h by simp_all
      have ei: "map snd topics ! i = map snd topics ! i'"
        and ej: "map snd topics ! j = map snd topics ! j'"
        using ij h by simp_all
      have i: "i = i'" using nth_eq_iff_index_eq[OF d li] ei by (rule iffD1)
      have j: "j = j'" using nth_eq_iff_index_eq[OF d lj] ej by (rule iffD1)
      have "1 / 10 < overlap_score (W (fst (topics ! i))) (W (fst (topics ! j)))"
        using ij(3) unfolding i j .
      moreover have "overlap_score (W (fst (topics ! i))) (W (fst (topics ! j))) = 0"
        using h by (simp add: overlap_score_disjoint)
      ultimately show False by simp
    qed
  qed
qed


lemma revenue_overlap:
  "compute_topic_overlap round2_exact
     [\<lparr>item_id = 0, item_text = ''Revenue growth margin'', embedding = None, cluster = Some 0\<rparr>,
      \<lparr>item_id = 1, item_text = ''revenue costs taxes'', embedding = None, cluster = Some 1\<rparr>]
     [(0, ''A''), (1, ''B'')]
   = [(''A'', ''B'', 1 / 5)]"
  by code_simp

text \<open>
  Witness for C9: two topics with three significant words each that share only
  \<open>revenue\<close>: the overlap is \<open>1/5\<close> and the pair is reported; and two disjoint word
  sets, whose overlap is 0.
\<close>

theorem topic_overlap_thresholded_jaccard_witness:
  "(''A'', ''B'', 1 / 5) \<in> set (compute_topic_overlap round2_exact
     [\<lparr>item_id = 0, item_text = ''Revenue growth margin'', embedding = None, cluster = Some 0\<rparr>,
      \<lparr>item_id = 1, item_text = ''revenue costs taxes'', embedding = None, cluster = Some 1\<rparr>]
     [(0, ''A''), (1, ''B'')])
   \<and> {''alpha''} \<inter> {''gamma''} = ({} :: string set)
   \<and> overlap_score {''alpha''} {''gamma''} = 0
   \<and> overlap_score {''alpha''} {''gamma''} = overlap_score {''gamma''} {''alpha''}"
proof -
  let ?data = "[\<lparr>item_id = 0, item_text = ''Revenue growth margin'', embedding = None, cluster = Some 0\<rparr>,
      \<lparr>item_id = 1, item_text = ''revenue costs taxes'', embedding = None, cluster = Some 1\<rparr>]"
  let ?topics = "[(0::int, ''A''), (1, ''B'')]"
  note T = topic_overlap_thresholded_jaccard[of ?topics ?data round2_exact]
  note B = T[THEN conjunct2, THEN conjunct1, THEN spec, THEN spec]
  have m: "(''A'', ''B'', 1 / 5) \<in> set (compute_topic_overlap round2_exact ?data ?topics)"
    by (simp add: revenue_overlap)
  have d: "{''alpha''} \<inter> {''gamma''} = ({} :: string set)" by simp
  have z: "overlap_score {''alpha''} {''gamma''} = 0"
    using B[of "{''alpha''}" "{''gamma''}"] d by simp
  have s: "overlap_score {''alpha''} {''gamma''} = overlap_score {''gamma''} {''alpha''}"
    using B[of "{''alpha''}" "{''gamma''}"] by simp
  show ?thesis using m d z s by simp
qed

end
